theory Spec2Isabelle
  imports Main "HOL-Library.Signed_Division" "HOL-Library.Log_Nat"
begin

section \<open>QueueArray: a growable circular buffer (QueueArray.c)\<close>

subsection \<open>Data model\<close>

text \<open>
  Elements are \<^verbatim>\<open>void *\<close>: a pointer is an address, and address 0 is the null pointer.
  The declaration of \<^verbatim>\<open>integer_t\<close> (Core.h) is not among the sources: it is taken as
  the signed 64-bit \<^verbatim>\<open>long long\<close>, and \<^verbatim>\<open>size_t\<close> and the pointers as 64 bits wide.
  The fields of a queue are of type \<open>int\<close>. The indices and counters \<open>front\<close>, \<open>rear\<close>,
  \<open>size\<close> and \<open>version_id\<close> move by one per call, and the first two stay below the
  capacity, so their overflow is outside every run considered here. The capacity is
  another matter: a growth multiplies it, casts the product from \<^verbatim>\<open>double\<close> and
  computes its size in bytes in \<^verbatim>\<open>size_t\<close>. There the model writes out the range of
  \<^verbatim>\<open>integer_t\<close>, the wrap-around of \<^verbatim>\<open>size_t\<close>, and every access to the block that
  \<^verbatim>\<open>realloc\<close> returns. The C operator \<^verbatim>\<open>%\<close> truncates towards zero: it is \<open>smod\<close>.
\<close>

type_synonym ptr = nat

abbreviation NULL :: ptr where
  "NULL \<equiv> 0"

text \<open>
  \<^verbatim>\<open>struct QueueArray_s\<close>. The field \<^verbatim>\<open>size\<close> is \<open>size_q\<close> here. The field
  \<^verbatim>\<open>interface\<close> (a table of callbacks) is not part of the record: the two callbacks
  that the modelled functions call, \<^verbatim>\<open>copy\<close> and \<^verbatim>\<open>free\<close>, appear as a function
  parameter and as the list of the pointers handed to \<^verbatim>\<open>free\<close>.
\<close>

record QueueArray =
  buffer :: "ptr list"
  front :: int
  rear :: int
  size_q :: int
  capacity :: int
  growth_rate :: int
  locked :: bool
  version_id :: int

text \<open>
  An execution that leaves the behaviour defined by the C standard ends in one of these
  faults: an access outside a block, a cast from \<^verbatim>\<open>double\<close> whose integral part is not
  an \<^verbatim>\<open>integer_t\<close>, a signed sum or difference outside \<^verbatim>\<open>integer_t\<close>, and a request
  for a block of zero bytes. A function that can reach one returns \<open>Inl\<close> of the fault,
  and \<open>Inr\<close> of its result otherwise.
\<close>

datatype c_error = OutOfBounds | CastOutOfRange | SignedOverflow | ZeroSizeRequest

definition integer_ok :: "int \<Rightarrow> bool" where
  "integer_ok x = (- (2 ^ 63) \<le> x \<and> x < 2 ^ 63)"

text \<open>
  A buffer is the list of the cells of its block, so that its length is the number of
  cells that may be accessed.
\<close>

definition in_block :: "ptr list \<Rightarrow> int \<Rightarrow> bool" where
  "in_block buf i = (0 \<le> i \<and> i < int (length buf))"

text \<open>
  \<^verbatim>\<open>sizeof(void*) * (size_t) n\<close>: the cast of \<open>n\<close> to \<^verbatim>\<open>size_t\<close> and the product are
  taken modulo \<open>2 ^ 64\<close>.
\<close>

definition byte_count :: "int \<Rightarrow> int" where
  "byte_count n = (8 * (n mod 2 ^ 64)) mod 2 ^ 64"

text \<open>
  The outcome of \<^verbatim>\<open>malloc\<close> and \<^verbatim>\<open>realloc\<close> is an input of the model: the call
  fails, or it succeeds and the fresh cells hold indeterminate values, given by a
  function of the index.
\<close>

datatype alloc_result = AllocFails | AllocOk "nat \<Rightarrow> ptr"

definition malloc_buf :: "(nat \<Rightarrow> ptr) \<Rightarrow> nat \<Rightarrow> ptr list" where
  "malloc_buf junk n = map junk [0..<n]"

definition realloc_buf :: "(nat \<Rightarrow> ptr) \<Rightarrow> ptr list \<Rightarrow> nat \<Rightarrow> ptr list" where
  "realloc_buf junk buf n = take n buf @ map junk [length buf..<n]"

text \<open>
  \<^verbatim>\<open>realloc (buf, bytes)\<close>. A failed call returns the null pointer (\<open>None\<close>) and leaves
  the block as it is; a successful one returns a block of \<open>bytes div 8\<close> cells, which
  starts with the cells of the old block, as many of them as fit. A request for zero
  bytes has no portable meaning (C17 leaves it to the implementation, and glibc
  releases the block and returns the null pointer, which \<^verbatim>\<open>qua_grow\<close> takes for a
  failure while \<^verbatim>\<open>queue->buffer\<close> still points to the released block): it is a fault.
\<close>

definition realloc_bytes :: "alloc_result \<Rightarrow> ptr list \<Rightarrow> int \<Rightarrow> c_error + ptr list option" where
  "realloc_bytes ra buf bytes =
     (if bytes = 0 then Inl ZeroSizeRequest
      else case ra of
             AllocFails \<Rightarrow> Inr None
           | AllocOk junk \<Rightarrow> Inr (Some (realloc_buf junk buf (nat (bytes div 8)))))"

subsection \<open>Double precision arithmetic of the growth computation\<close>

text \<open>
  \<^verbatim>\<open>qua_grow\<close> computes the new capacity as
  \<^verbatim>\<open>(integer_t) ((double) capacity * ((double) growth_rate / 100.0))\<close>.
  A finite double is \<open>m * 2 ^ e\<close> with \<open>\<bar>m\<bar> < 2 ^ 53\<close>, here the pair \<open>(m, e)\<close>.
  Every operation is the exact result rounded to 53 significant bits, to nearest,
  ties to even (IEEE 754 binary64 in its default rounding mode); the exponent range
  is not modelled, since a product of two \<^verbatim>\<open>integer_t\<close> values does not leave it.
\<close>

type_synonym dbl = "int \<times> int"

definition round53 :: "int \<Rightarrow> int \<Rightarrow> dbl" where
  "round53 m e =
     (let a = \<bar>m\<bar>; s = bitlen a - 53 in
      if s \<le> 0 then (m, e)
      else
        let q = a div 2 ^ nat s;
            r = a mod 2 ^ nat s;
            half = 2 ^ nat (s - 1);
            q' = (if r > half \<or> (r = half \<and> q mod 2 = 1) then q + 1 else q)
        in (sgn m * q', e + s))"

definition dbl_of_int :: "int \<Rightarrow> dbl" where
  "dbl_of_int n = round53 n 0"

definition dbl_mult :: "dbl \<Rightarrow> dbl \<Rightarrow> dbl" where
  "dbl_mult x y = round53 (fst x * fst y) (snd x + snd y)"

text \<open>
  Division by a non-zero double: the quotient of the significands is computed with
  more than 64 bits, followed by one sticky bit that records a non-zero remainder,
  and then rounded once.
\<close>

definition dbl_divide :: "dbl \<Rightarrow> dbl \<Rightarrow> dbl" where
  "dbl_divide x y =
     (let n = \<bar>fst x\<bar>; d = \<bar>fst y\<bar>;
          k = nat (64 + bitlen d);
          q = (n * 2 ^ k) div d;
          sticky = (if (n * 2 ^ k) mod d = 0 then 0 else 1)
      in round53 (sgn (fst x) * sgn (fst y) * (2 * q + sticky))
                 (snd x - snd y - int k - 1))"

text \<open>
  The cast \<^verbatim>\<open>(integer_t) x\<close> discards the fractional part. \<open>int_of_dbl\<close> is the integral
  part of a double; the cast is undefined when \<^verbatim>\<open>integer_t\<close> cannot represent it.
\<close>

definition int_of_dbl :: "dbl \<Rightarrow> int" where
  "int_of_dbl x =
     (if snd x \<ge> 0 then fst x * 2 ^ nat (snd x)
      else sgn (fst x) * (\<bar>fst x\<bar> div 2 ^ nat (- snd x)))"

definition integer_of_dbl :: "dbl \<Rightarrow> c_error + int" where
  "integer_of_dbl x =
     (if integer_ok (int_of_dbl x) then Inr (int_of_dbl x) else Inl CastOutOfRange)"

definition scale_capacity :: "int \<Rightarrow> int \<Rightarrow> c_error + int" where
  "scale_capacity cap rate =
     integer_of_dbl (dbl_mult (dbl_of_int cap) (dbl_divide (dbl_of_int rate) (dbl_of_int 100)))"

subsection \<open>Construction\<close>

definition qua_new :: "bool \<Rightarrow> bool \<Rightarrow> QueueArray option" where
  "qua_new struct_ok buffer_ok =
     (if \<not> struct_ok then None
      else if \<not> buffer_ok then None
      else Some \<lparr>buffer = replicate 32 NULL, front = 0, rear = 0, size_q = 0,
                  capacity = 32, growth_rate = 200, locked = False, version_id = 0\<rparr>)"

text \<open>
  \<^verbatim>\<open>qua_create\<close> asks \<^verbatim>\<open>malloc\<close> for \<^verbatim>\<open>sizeof(void*) * (size_t) initial_capacity\<close>
  bytes and then stores the null pointer in the cells \<open>0\<close> to \<open>initial_capacity - 1\<close>.
  A byte count of zero is a request for zero bytes, a fault as for \<^verbatim>\<open>realloc\<close>. When
  the byte count has wrapped around otherwise, the block has fewer cells and the loop
  leaves it; when it has not, the block has \<open>initial_capacity\<close> cells, all of them null.
\<close>

definition qua_create :: "bool \<Rightarrow> bool \<Rightarrow> int \<Rightarrow> int \<Rightarrow> c_error + QueueArray option" where
  "qua_create struct_ok buffer_ok initial_capacity rate =
     (if rate \<le> 100 \<or> initial_capacity \<le> 0 then Inr None
      else if \<not> struct_ok then Inr None
      else if byte_count initial_capacity = 0 then Inl ZeroSizeRequest
      else if \<not> buffer_ok then Inr None
      else if byte_count initial_capacity div 8 < initial_capacity then Inl OutOfBounds
      else Inr (Some \<lparr>buffer = replicate (nat initial_capacity) NULL, front = 0, rear = 0,
                       size_q = 0, capacity = initial_capacity, growth_rate = rate,
                       locked = False, version_id = 0\<rparr>))"

subsection \<open>Getters, setters and state\<close>

definition qua_size :: "QueueArray \<Rightarrow> int" where
  "qua_size q = size_q q"

definition qua_capacity :: "QueueArray \<Rightarrow> int" where
  "qua_capacity q = capacity q"

definition qua_empty :: "QueueArray \<Rightarrow> bool" where
  "qua_empty q = (size_q q = 0)"

definition qua_full :: "QueueArray \<Rightarrow> bool" where
  "qua_full q = (size_q q = capacity q)"

definition qua_set_growth :: "QueueArray \<Rightarrow> int \<Rightarrow> bool \<times> QueueArray" where
  "qua_set_growth q rate =
     (if rate \<le> 100 then (False, q) else (True, q\<lparr>growth_rate := rate\<rparr>))"

definition qua_capacity_lock :: "QueueArray \<Rightarrow> QueueArray" where
  "qua_capacity_lock q = q\<lparr>locked := True\<rparr>"

definition qua_capacity_unlock :: "QueueArray \<Rightarrow> QueueArray" where
  "qua_capacity_unlock q = q\<lparr>locked := False\<rparr>"

subsection \<open>Growing the buffer\<close>

text \<open>
  The new capacity, as \<^verbatim>\<open>qua_grow\<close> computes it before the reallocation: the product
  cast to \<^verbatim>\<open>integer_t\<close>, or the old capacity plus 4 when the product adds less than 4.
\<close>

definition grown_capacity :: "QueueArray \<Rightarrow> c_error + int" where
  "grown_capacity q =
     (case scale_capacity (capacity q) (growth_rate q) of
        Inl e \<Rightarrow> Inl e
      | Inr scaled \<Rightarrow>
          if \<not> integer_ok (scaled - capacity q) then Inl SignedOverflow
          else if scaled - capacity q < 4
          then if integer_ok (capacity q + 4) then Inr (capacity q + 4) else Inl SignedOverflow
          else Inr scaled)"

text \<open>
  The loop that moves the right portion to the end of the enlarged buffer:
  \<^verbatim>\<open>for (i = old_capacity - 1, j = capacity - 1; i >= front; i--, j--) buffer[j] = buffer[i];\<close>
\<close>

function shift_right_loop :: "int \<Rightarrow> int \<Rightarrow> int \<Rightarrow> ptr list \<Rightarrow> c_error + ptr list" where
  "shift_right_loop fr i j buf =
     (if i \<ge> fr
      then if in_block buf i \<and> in_block buf j
           then shift_right_loop fr (i - 1) (j - 1) (buf[nat j := buf ! nat i])
           else Inl OutOfBounds
      else Inr buf)"
  by pat_completeness auto
termination
  by (relation "measure (\<lambda>(fr, i, j, buf). nat (i + 1 - fr))") auto

declare shift_right_loop.simps [simp del]

text \<open>
  The loop that appends the left portion after the right portion:
  \<^verbatim>\<open>for (i = 0, j = old_capacity; i < rear; i++, j = (j + 1) % capacity) buffer[j] = buffer[i];\<close>
\<close>

function append_left_loop ::
  "int \<Rightarrow> int \<Rightarrow> int \<Rightarrow> int \<Rightarrow> ptr list \<Rightarrow> c_error + ptr list" where
  "append_left_loop rr cap i j buf =
     (if i < rr
      then if in_block buf i \<and> in_block buf j
           then append_left_loop rr cap (i + 1) ((j + 1) smod cap) (buf[nat j := buf ! nat i])
           else Inl OutOfBounds
      else Inr buf)"
  by pat_completeness auto
termination
  by (relation "measure (\<lambda>(rr, cap, i, j, buf). nat (rr - i))") auto

declare append_left_loop.simps [simp del]

text \<open>
  \<^verbatim>\<open>qua_grow\<close>. The block that \<^verbatim>\<open>realloc\<close> returns has \<open>byte_count capacity div 8\<close>
  cells, which is the new capacity only as long as the byte count has not wrapped
  around.
\<close>

definition qua_grow :: "alloc_result \<Rightarrow> QueueArray \<Rightarrow> c_error + bool \<times> QueueArray" where
  "qua_grow ra q =
     (if locked q then Inr (False, q)
      else
        let old_capacity = capacity q
        in case grown_capacity q of
             Inl e \<Rightarrow> Inl e
           | Inr new_capacity \<Rightarrow>
               let q2 = q\<lparr>capacity := new_capacity\<rparr>
               in case realloc_bytes ra (buffer q2) (byte_count (capacity q2)) of
                    Inl e \<Rightarrow> Inl e
                  | Inr None \<Rightarrow> Inr (False, q2\<lparr>capacity := old_capacity\<rparr>)
                  | Inr (Some new_buffer) \<Rightarrow>
                      let q3 = q2\<lparr>buffer := new_buffer\<rparr>;
                          real_rear = (if rear q3 = 0 then old_capacity - 1 else rear q3 - 1)
                      in if real_rear < front q3 then
                           if old_capacity - front q3 < rear q3 then
                             let distance = old_capacity - front q3
                             in case shift_right_loop (front q3) (old_capacity - 1)
                                       (capacity q3 - 1) (buffer q3) of
                                  Inl e \<Rightarrow> Inl e
                                | Inr buf \<Rightarrow>
                                    let q4 = q3\<lparr>buffer := buf\<rparr>
                                    in Inr (True, q4\<lparr>front := capacity q4 - distance\<rparr>)
                           else
                             case append_left_loop (rear q3) (capacity q3) 0
                                    old_capacity (buffer q3) of
                               Inl e \<Rightarrow> Inl e
                             | Inr buf \<Rightarrow>
                                 let q4 = q3\<lparr>buffer := buf\<rparr>
                                 in Inr (True,
                                      q4\<lparr>rear := (old_capacity + rear q4) smod capacity q4\<rparr>)
                         else if rear q3 = 0 then Inr (True, q3\<lparr>rear := old_capacity\<rparr>)
                         else Inr (False, q3))"

subsection \<open>Input and output\<close>

text \<open>
  \<^verbatim>\<open>qua_enqueue\<close>. The store \<^verbatim>\<open>buffer[rear] = element\<close> is the first access after a
  growth, whose block may be shorter than the capacity: it is checked against the block.
\<close>

definition qua_enqueue ::
  "alloc_result \<Rightarrow> QueueArray \<Rightarrow> ptr \<Rightarrow> c_error + bool \<times> QueueArray" where
  "qua_enqueue ra q element =
     (case (if qua_full q then qua_grow ra q else Inr (True, q)) of
        Inl e \<Rightarrow> Inl e
      | Inr (grown, q1) \<Rightarrow>
          if \<not> grown then Inr (False, q1)
          else if \<not> in_block (buffer q1) (rear q1) then Inl OutOfBounds
          else
            let q2 = q1\<lparr>buffer := (buffer q1)[nat (rear q1) := element]\<rparr>;
                q3 = q2\<lparr>rear := (if rear q2 = capacity q2 - 1 then 0 else rear q2 + 1)\<rparr>;
                q4 = q3\<lparr>size_q := size_q q3 + 1\<rparr>
            in Inr (True, q4\<lparr>version_id := version_id q4 + 1\<rparr>))"

text \<open>The result is the returned flag, the pointer stored in \<^verbatim>\<open>*result\<close>, and the queue.\<close>

definition qua_dequeue :: "QueueArray \<Rightarrow> bool \<times> ptr \<times> QueueArray" where
  "qua_dequeue q =
     (if qua_empty q then (False, NULL, q)
      else
        let result = buffer q ! nat (front q);
            q1 = q\<lparr>buffer := (buffer q)[nat (front q) := NULL]\<rparr>;
            q2 = q1\<lparr>front := (if front q1 = capacity q1 - 1 then 0 else front q1 + 1)\<rparr>;
            q3 = q2\<lparr>size_q := size_q q2 - 1\<rparr>
        in (True, result, q3\<lparr>version_id := version_id q3 + 1\<rparr>))"

subsection \<open>Erasing, copying and linearising\<close>

text \<open>
  The loop of \<^verbatim>\<open>qua_erase\<close>:
  \<^verbatim>\<open>for (i = front, j = 0; j < size; i = (i + 1) % capacity, j++)
     { interface->free(buffer[i]); buffer[i] = NULL; }\<close>
  It returns the buffer and the pointers handed to \<^verbatim>\<open>free\<close>, in the order of the calls.
\<close>

function erase_loop ::
  "int \<Rightarrow> int \<Rightarrow> int \<Rightarrow> int \<Rightarrow> ptr list \<Rightarrow> ptr list \<Rightarrow> ptr list \<times> ptr list" where
  "erase_loop sz cap i j buf freed =
     (if j < sz
      then erase_loop sz cap ((i + 1) smod cap) (j + 1) (buf[nat i := NULL]) (freed @ [buf ! nat i])
      else (buf, freed))"
  by pat_completeness auto
termination
  by (relation "measure (\<lambda>(sz, cap, i, j, buf, freed). nat (sz - j))") auto

declare erase_loop.simps [simp del]

text \<open>The result is the returned flag, the queue, and the pointers that were freed.\<close>

definition qua_erase :: "QueueArray \<Rightarrow> bool \<times> QueueArray \<times> ptr list" where
  "qua_erase q =
     (let (buf, freed) = erase_loop (size_q q) (capacity q) (front q) 0 (buffer q) []
      in (True, q\<lparr>buffer := buf\<rparr>, freed))"

text \<open>
  The loop of \<^verbatim>\<open>qua_copy\<close>:
  \<^verbatim>\<open>for (i = front, j = 0; j < size - 1; i = (i + 1) % capacity, j++)
     new_queue->buffer[i] = interface->copy(buffer[i]);\<close>
\<close>

function copy_loop ::
  "(ptr \<Rightarrow> ptr) \<Rightarrow> int \<Rightarrow> int \<Rightarrow> ptr list \<Rightarrow> int \<Rightarrow> int \<Rightarrow> ptr list \<Rightarrow> ptr list" where
  "copy_loop copy_f sz cap buf i j new_buf =
     (if j < sz - 1
      then copy_loop copy_f sz cap buf ((i + 1) smod cap) (j + 1)
             (new_buf[nat i := copy_f (buf ! nat i)])
      else new_buf)"
  by pat_completeness auto
termination
  by (relation "measure (\<lambda>(copy_f, sz, cap, buf, i, j, new_buf). nat (sz - 1 - j))") auto

declare copy_loop.simps [simp del]

definition qua_copy ::
  "(ptr \<Rightarrow> ptr) \<Rightarrow> bool \<Rightarrow> bool \<Rightarrow> QueueArray \<Rightarrow> c_error + QueueArray option" where
  "qua_copy copy_f struct_ok buffer_ok q =
     (case qua_create struct_ok buffer_ok (capacity q) (growth_rate q) of
        Inl e \<Rightarrow> Inl e
      | Inr None \<Rightarrow> Inr None
      | Inr (Some new_queue) \<Rightarrow>
          let n1 = new_queue\<lparr>buffer := copy_loop copy_f (size_q q) (capacity q) (buffer q)
                                           (front q) 0 (buffer new_queue)\<rparr>;
              n2 = n1\<lparr>front := front q\<rparr>;
              n3 = n2\<lparr>rear := rear q\<rparr>;
              n4 = n3\<lparr>size_q := size_q q\<rparr>
          in Inr (Some (n4\<lparr>locked := locked q\<rparr>)))"

text \<open>
  The loop of \<^verbatim>\<open>qua_to_array\<close>:
  \<^verbatim>\<open>for (i = front, j = 0; j < size; i = (i + 1) % capacity, j++)
     array[i] = interface->copy(buffer[i]);\<close>
  The array has \<open>size\<close> cells (\<open>byte_count size div 8\<close> of them, when the size in bytes
  wraps around) and the loop writes cell \<open>i\<close>, an index of the buffer.
  A write past the end of the array is undefined behaviour in C; the model stops
  there with an error.
\<close>

function to_array_loop ::
  "(ptr \<Rightarrow> ptr) \<Rightarrow> int \<Rightarrow> int \<Rightarrow> ptr list \<Rightarrow> int \<Rightarrow> int \<Rightarrow> ptr list \<Rightarrow> c_error + ptr list" where
  "to_array_loop copy_f sz cap buf i j array =
     (if j < sz
      then if 0 \<le> i \<and> nat i < length array
           then to_array_loop copy_f sz cap buf ((i + 1) smod cap) (j + 1)
                  (array[nat i := copy_f (buf ! nat i)])
           else Inl OutOfBounds
      else Inr array)"
  by pat_completeness auto
termination
  by (relation "measure (\<lambda>(copy_f, sz, cap, buf, i, j, array). nat (sz - j))") auto

declare to_array_loop.simps [simp del]

text \<open>
  The result is \<open>None\<close> for a returned null pointer, and otherwise the array with the
  value stored in \<^verbatim>\<open>*length\<close>.
\<close>

definition qua_to_array ::
  "(ptr \<Rightarrow> ptr) \<Rightarrow> alloc_result \<Rightarrow> QueueArray \<Rightarrow> c_error + (ptr list \<times> int) option" where
  "qua_to_array copy_f ra q =
     (if qua_empty q then Inr None
      else if byte_count (size_q q) = 0 then Inl ZeroSizeRequest
      else case ra of
             AllocFails \<Rightarrow> Inr None
           | AllocOk junk \<Rightarrow>
               (case to_array_loop copy_f (size_q q) (capacity q) (buffer q) (front q) 0
                       (malloc_buf junk (nat (byte_count (size_q q) div 8))) of
                  Inl e \<Rightarrow> Inl e
                | Inr array \<Rightarrow> Inr (Some (array, size_q q))))"

subsection \<open>The logical sequence and the representation invariant\<close>

text \<open>
  The elements of a queue front to rear: the \<open>j\<close>-th one is in slot
  \<open>(front + j) mod capacity\<close>, as \<^verbatim>\<open>qua_compare\<close> reads it.
\<close>

definition logical_seq :: "QueueArray \<Rightarrow> ptr list" where
  "logical_seq q =
     map (\<lambda>j. buffer q ! nat ((front q + int j) mod capacity q)) [0..<nat (size_q q)]"

text \<open>
  The states that the functions of the file produce, as long as no byte count wraps
  around: the buffer has \<open>capacity\<close> slots, \<open>front\<close> is an index of it, and \<open>rear\<close> is
  \<open>size\<close> slots after \<open>front\<close>, circularly. In these states \<^verbatim>\<open>qua_dequeue\<close>,
  \<^verbatim>\<open>qua_erase\<close> and \<^verbatim>\<open>qua_copy\<close> index the buffer inside its block.
\<close>

definition qua_inv :: "QueueArray \<Rightarrow> bool" where
  "qua_inv q =
     (0 < capacity q \<and> length (buffer q) = nat (capacity q) \<and>
      0 \<le> front q \<and> front q < capacity q \<and>
      0 \<le> size_q q \<and> size_q q \<le> capacity q \<and>
      rear q = (front q + size_q q) mod capacity q)"

subsection \<open>Runs of enqueue and dequeue calls\<close>

text \<open>
  A call of \<^verbatim>\<open>qua_enqueue\<close> comes with the outcome of the \<^verbatim>\<open>realloc\<close> that it may
  perform. A run records, for each call, the returned flag and the element that was
  passed or returned; it ends at the first fault.
\<close>

datatype qop = Enqueue alloc_result ptr | Dequeue

datatype qres = Enqueued bool ptr | Dequeued bool ptr

fun run_ops :: "QueueArray \<Rightarrow> qop list \<Rightarrow> c_error + qres list \<times> QueueArray" where
  "run_ops q [] = Inr ([], q)"
| "run_ops q (Enqueue ra x # ops) =
     (case qua_enqueue ra q x of
        Inl e \<Rightarrow> Inl e
      | Inr (ok, q1) \<Rightarrow>
          (case run_ops q1 ops of
             Inl e \<Rightarrow> Inl e
           | Inr (rs, q2) \<Rightarrow> Inr (Enqueued ok x # rs, q2)))"
| "run_ops q (Dequeue # ops) =
     (let (ok, y, q1) = qua_dequeue q
      in case run_ops q1 ops of
           Inl e \<Rightarrow> Inl e
         | Inr (rs, q2) \<Rightarrow> Inr (Dequeued ok y # rs, q2))"

text \<open>
  The first-in first-out discipline, read off a run: \<open>pending\<close> holds the elements that
  were enqueued with success and not dequeued yet, oldest first; a successful dequeue
  must return its head.
\<close>

fun fifo_trace :: "ptr list \<Rightarrow> qres list \<Rightarrow> bool" where
  "fifo_trace pending [] = True"
| "fifo_trace pending (Enqueued ok x # rs) =
     fifo_trace (if ok then pending @ [x] else pending) rs"
| "fifo_trace pending (Dequeued ok y # rs) =
     (if ok then pending \<noteq> [] \<and> y = hd pending \<and> fifo_trace (tl pending) rs
      else fifo_trace pending rs)"

fun enq_count :: "qres list \<Rightarrow> nat" where
  "enq_count [] = 0"
| "enq_count (Enqueued ok x # rs) = (if ok then Suc (enq_count rs) else enq_count rs)"
| "enq_count (Dequeued ok y # rs) = enq_count rs"

fun deq_count :: "qres list \<Rightarrow> nat" where
  "deq_count [] = 0"
| "deq_count (Enqueued ok x # rs) = deq_count rs"
| "deq_count (Dequeued ok y # rs) = (if ok then Suc (deq_count rs) else deq_count rs)"

text \<open>The results of \<open>n\<close> successive calls of \<^verbatim>\<open>qua_dequeue\<close>.\<close>

fun dequeue_n :: "nat \<Rightarrow> QueueArray \<Rightarrow> (bool \<times> ptr) list" where
  "dequeue_n 0 q = []"
| "dequeue_n (Suc n) q =
     (let (ok, y, q1) = qua_dequeue q in (ok, y) # dequeue_n n q1)"

section \<open>RedBlackTree: insertion and removal with rebalancing\<close>

subsection \<open>Data model\<close>

text \<open>
  Modelled from the spec: RedBlackTree.c (the node and tree structures, \<^verbatim>\<open>rbt_new\<close>,
  \<^verbatim>\<open>rbt_insert\<close>, \<^verbatim>\<open>rbt_remove\<close> and their two rebalancing loops) is not among the
  sources; only its tests are. The definitions of this section follow sections 3 and 4.1
  of the specification. A node has a key, a colour and two children; the null child is
  \<open>Null\<close> and counts as black. The tree has a root and a size.
\<close>

datatype color = Red | Black

datatype 'a rbt = Null | Node color "'a rbt" 'a "'a rbt"

record 'a RedBlackTree =
  root :: "'a rbt"
  size_t :: int

text \<open>
  Modelled from the spec: the parent back-reference of a node, absent from the sources.
  The rebalancing loops walk from a node up to the root through the parent references.
  Here the way up is a list of frames, the nearest parent first: each frame is a parent
  with its colour, its key and its other child, and records on which side the node
  hangs. \<open>plug\<close> puts a subtree back under its parent and \<open>rebuild\<close> under all of them,
  up to the root.
\<close>

datatype 'a frame = LeftChildOf color 'a "'a rbt" | RightChildOf color "'a rbt" 'a

fun color_of :: "'a rbt \<Rightarrow> color" where
  "color_of Null = Black"
| "color_of (Node c l k r) = c"

fun paint :: "color \<Rightarrow> 'a rbt \<Rightarrow> 'a rbt" where
  "paint c Null = Null"
| "paint c (Node c' l k r) = Node c l k r"

fun frame_color :: "'a frame \<Rightarrow> color" where
  "frame_color (LeftChildOf c k r) = c"
| "frame_color (RightChildOf c l k) = c"

fun plug :: "'a rbt \<Rightarrow> 'a frame \<Rightarrow> 'a rbt" where
  "plug t (LeftChildOf c k r) = Node c t k r"
| "plug t (RightChildOf c l k) = Node c l k t"

fun rebuild :: "'a rbt \<Rightarrow> 'a frame list \<Rightarrow> 'a rbt" where
  "rebuild t [] = t"
| "rebuild t (f # fs) = rebuild (plug t f) fs"

text \<open>
  Modelled from the spec: the left and right rotations at a node, absent from the
  sources. The right child (left child) takes the place of the node, and the node
  becomes its left child (right child).
\<close>

fun rotate_left :: "'a rbt \<Rightarrow> 'a rbt" where
  "rotate_left (Node c a k (Node c' b k' d)) = Node c' (Node c a k b) k' d"
| "rotate_left t = t"

fun rotate_right :: "'a rbt \<Rightarrow> 'a rbt" where
  "rotate_right (Node c (Node c' a k' b) k d) = Node c' a k' (Node c b k d)"
| "rotate_right t = t"

definition rbt_new :: "'a RedBlackTree" where
  "rbt_new = \<lparr>root = Null, size_t = 0\<rparr>"

subsection \<open>Insertion\<close>

text \<open>
  Modelled from the spec: the descent of \<^verbatim>\<open>rbt_insert\<close>, absent from the sources. It goes
  left if \<open>compare new cur < 0\<close> and right otherwise, and fails (\<open>None\<close>) on an equal key.
  The comparator is the \<^verbatim>\<open>compare\<close> capability, any function to the integers.
\<close>

fun descend ::
  "('a \<Rightarrow> 'a \<Rightarrow> int) \<Rightarrow> 'a \<Rightarrow> 'a rbt \<Rightarrow> 'a frame list \<Rightarrow> 'a frame list option" where
  "descend compare new Null path = Some path"
| "descend compare new (Node c l k r) path =
     (if compare new k = 0 then None
      else if compare new k < 0 then descend compare new l (LeftChildOf c k r # path)
      else descend compare new r (RightChildOf c l k # path))"

text \<open>
  Modelled from the spec: the insert-fixup loop, absent from the sources. \<open>t\<close> is the
  subtree of the node under repair and the list is its way up. The loop runs while the
  parent is red. With a red uncle, parent and uncle become black, the grandparent red,
  and the loop continues from the grandparent. With a black or null uncle, a node on the
  inner side is first rotated outwards at the parent, then the parent becomes black,
  the grandparent red, the grandparent is rotated away from the node, and the loop ends.
  The result is the whole tree, before its root is forced black. A red parent without a
  grandparent is a red root, which no operation leaves behind; the model stops there.
\<close>

fun insert_fixup :: "'a rbt \<Rightarrow> 'a frame list \<Rightarrow> 'a rbt" where
  "insert_fixup t [] = t"
| "insert_fixup t [f] = plug t f"
| "insert_fixup t (f # g # fs) =
     (if frame_color f = Black then rebuild t (f # g # fs)
      else case g of
        LeftChildOf gc gk uncle \<Rightarrow>
          if color_of uncle = Red
          then insert_fixup (Node Red (paint Black (plug t f)) gk (paint Black uncle)) fs
          else
            let parent = (case f of RightChildOf pc a pk \<Rightarrow> rotate_left (plug t f)
                                  | LeftChildOf pc pk c \<Rightarrow> plug t f)
            in rebuild (rotate_right (Node Red (paint Black parent) gk uncle)) fs
      | RightChildOf gc uncle gk \<Rightarrow>
          if color_of uncle = Red
          then insert_fixup (Node Red (paint Black uncle) gk (paint Black (plug t f))) fs
          else
            let parent = (case f of LeftChildOf pc pk c \<Rightarrow> rotate_right (plug t f)
                                  | RightChildOf pc a pk \<Rightarrow> plug t f)
            in rebuild (rotate_left (Node Red uncle gk (paint Black parent))) fs)"

text \<open>
  Modelled from the spec: \<^verbatim>\<open>rbt_insert\<close>, absent from the sources. An empty tree gets a
  black root directly. Otherwise a duplicate key is rejected and the tree is unchanged;
  a new key becomes a red node at the end of the descent, the fixup runs, and the root
  is forced black.
\<close>

definition rbt_insert ::
  "('a \<Rightarrow> 'a \<Rightarrow> int) \<Rightarrow> 'a RedBlackTree \<Rightarrow> 'a \<Rightarrow> bool \<times> 'a RedBlackTree" where
  "rbt_insert compare tree key =
     (case root tree of
        Null \<Rightarrow> (True, tree\<lparr>root := Node Black Null key Null, size_t := size_t tree + 1\<rparr>)
      | Node c l k r \<Rightarrow>
          (case descend compare key (root tree) [] of
             None \<Rightarrow> (False, tree)
           | Some path \<Rightarrow>
               (True, tree\<lparr>root := paint Black (insert_fixup (Node Red Null key Null) path),
                           size_t := size_t tree + 1\<rparr>)))"

subsection \<open>Removal\<close>

text \<open>
  Modelled from the spec: the search of \<^verbatim>\<open>rbt_remove\<close> for the node \<open>z\<close> that holds the
  key, and the search for the in-order successor (the leftmost node of the right
  subtree), both absent from the sources.
\<close>

fun locate ::
  "('a \<Rightarrow> 'a \<Rightarrow> int) \<Rightarrow> 'a \<Rightarrow> 'a rbt \<Rightarrow> 'a frame list \<Rightarrow> ('a rbt \<times> 'a frame list) option" where
  "locate compare key Null path = None"
| "locate compare key (Node c l k r) path =
     (if compare key k = 0 then Some (Node c l k r, path)
      else if compare key k < 0 then locate compare key l (LeftChildOf c k r # path)
      else locate compare key r (RightChildOf c l k # path))"

fun leftmost :: "'a rbt \<Rightarrow> 'a frame list \<Rightarrow> 'a rbt \<times> 'a frame list" where
  "leftmost Null path = (Null, path)"
| "leftmost (Node c Null k r) path = (Node c Null k r, path)"
| "leftmost (Node c (Node lc ll lk lr) k r) path =
     leftmost (Node lc ll lk lr) (LeftChildOf c k r # path)"

text \<open>
  Modelled from the spec: one round of the delete-fixup loop, absent from the sources.
  \<open>x\<close> is black, not the root, and one black node short. \<open>delete_step\<close> handles a red
  sibling: the sibling becomes black, the parent red, the parent is rotated towards
  \<open>x\<close>, and the new sibling is the former near nephew. The round goes on with a black
  sibling (\<open>black_sibling_right\<close> when the sibling is the right child, \<open>black_sibling_left\<close>
  when it is the left child). If both nephews are black, the sibling becomes red and
  \<open>x\<close> moves up to the parent. Otherwise, if the far nephew is black, the near nephew
  becomes black, the sibling red, and the sibling is rotated away from \<open>x\<close>; then the
  sibling takes the colour of the parent, the parent and the far nephew become black,
  the parent is rotated towards \<open>x\<close>, and \<open>x\<close> becomes the root. The result is the new
  \<open>x\<close> and its way up. A null sibling does not occur next to a node that is one black
  node short; the model moves up there.
\<close>

fun black_sibling_right ::
  "'a rbt \<Rightarrow> color \<Rightarrow> 'a \<Rightarrow> 'a rbt \<Rightarrow> 'a frame list \<Rightarrow> 'a rbt \<times> 'a frame list" where
  "black_sibling_right x pc pk Null fs = (Node pc x pk Null, fs)"
| "black_sibling_right x pc pk (Node sc sl sk sr) fs =
     (if color_of sl = Black \<and> color_of sr = Black
      then (Node pc x pk (Node Red sl sk sr), fs)
      else
        case (if color_of sr = Black then rotate_right (Node Red (paint Black sl) sk sr)
              else Node sc sl sk sr) of
          Null \<Rightarrow> (Node pc x pk Null, fs)
        | Node sc' sl' sk' sr' \<Rightarrow>
            (rebuild (rotate_left (Node Black x pk (Node pc sl' sk' (paint Black sr')))) fs, []))"

fun black_sibling_left ::
  "'a rbt \<Rightarrow> color \<Rightarrow> 'a \<Rightarrow> 'a rbt \<Rightarrow> 'a frame list \<Rightarrow> 'a rbt \<times> 'a frame list" where
  "black_sibling_left x pc pk Null fs = (Node pc Null pk x, fs)"
| "black_sibling_left x pc pk (Node sc sl sk sr) fs =
     (if color_of sl = Black \<and> color_of sr = Black
      then (Node pc (Node Red sl sk sr) pk x, fs)
      else
        case (if color_of sl = Black then rotate_left (Node Red sl sk (paint Black sr))
              else Node sc sl sk sr) of
          Null \<Rightarrow> (Node pc Null pk x, fs)
        | Node sc' sl' sk' sr' \<Rightarrow>
            (rebuild (rotate_right (Node Black (Node pc (paint Black sl') sk' sr') pk x)) fs, []))"

fun delete_step :: "'a rbt \<Rightarrow> 'a frame \<Rightarrow> 'a frame list \<Rightarrow> 'a rbt \<times> 'a frame list" where
  "delete_step x (LeftChildOf pc pk s) fs =
     (case s of
        Node Red sl sk sr \<Rightarrow> black_sibling_right x Red pk sl (LeftChildOf Black sk sr # fs)
      | _ \<Rightarrow> black_sibling_right x pc pk s fs)"
| "delete_step x (RightChildOf pc s pk) fs =
     (case s of
        Node Red sl sk sr \<Rightarrow> black_sibling_left x Red pk sr (RightChildOf Black sl sk # fs)
      | _ \<Rightarrow> black_sibling_left x pc pk s fs)"

text \<open>
  Modelled from the spec: the delete-fixup loop, absent from the sources. It runs while
  \<open>x\<close> is not the root and is black, and at the end forces \<open>x\<close> black. The result is the
  whole tree. Each round shortens the way up or leaves it as long with a red \<open>x\<close>.
\<close>

function delete_fixup :: "'a rbt \<Rightarrow> 'a frame list \<Rightarrow> 'a rbt" where
  "delete_fixup x [] = paint Black x"
| "delete_fixup x (f # fs) =
     (if color_of x = Red then rebuild (paint Black x) (f # fs)
      else case delete_step x f fs of (x', path') \<Rightarrow> delete_fixup x' path')"
  by pat_completeness auto
termination
proof (relation "measure (\<lambda>(x, path). 2 * length path + (if color_of x = Black then 1 else 0))")
  fix x :: "'a rbt" and f fs x' path'
  assume "color_of x \<noteq> Red" and step: "(x', path') = delete_step x f fs"
  then have black: "color_of x = Black" by (cases "color_of x") simp_all
  have right: "path' = [] \<or> (path' = fs \<and> color_of x' = pc)"
    if "black_sibling_right x pc pk s fs = (x', path')" for pc pk s and fs :: "'a frame list"
    using that by (cases s) (auto split: if_splits rbt.splits)
  have left: "path' = [] \<or> (path' = fs \<and> color_of x' = pc)"
    if "black_sibling_left x pc pk s fs = (x', path')" for pc pk s and fs :: "'a frame list"
    using that by (cases s) (auto split: if_splits rbt.splits)
  have "2 * length path' + (if color_of x' = Black then 1 else 0) < 2 * length fs + 3"
  proof (cases f)
    case (LeftChildOf pc pk s)
    show ?thesis
    proof (cases "\<exists>sl sk sr. s = Node Red sl sk sr")
      case True
      then obtain sl sk sr where "s = Node Red sl sk sr" by blast
      then have "black_sibling_right x Red pk sl (LeftChildOf Black sk sr # fs) = (x', path')"
        using step LeftChildOf by simp
      from right [OF this] show ?thesis by auto
    next
      case False
      then have "black_sibling_right x pc pk s fs = (x', path')"
        using step LeftChildOf by (auto split: rbt.splits color.splits)
      from right [OF this] show ?thesis by auto
    qed
  next
    case (RightChildOf pc s pk)
    show ?thesis
    proof (cases "\<exists>sl sk sr. s = Node Red sl sk sr")
      case True
      then obtain sl sk sr where "s = Node Red sl sk sr" by blast
      then have "black_sibling_left x Red pk sr (RightChildOf Black sl sk # fs) = (x', path')"
        using step RightChildOf by simp
      from left [OF this] show ?thesis by auto
    next
      case False
      then have "black_sibling_left x pc pk s fs = (x', path')"
        using step RightChildOf by (auto split: rbt.splits color.splits)
      from left [OF this] show ?thesis by auto
    qed
  qed
  then show "((x', path'), x, f # fs)
      \<in> measure (\<lambda>(x, path). 2 * length path + (if color_of x = Black then 1 else 0))"
    using black by simp
qed simp

text \<open>
  Modelled from the spec: \<^verbatim>\<open>rbt_remove\<close>, absent from the sources. It fails if the key
  is absent. If the node \<open>z\<close> of the key has two non-null children, the key of its
  in-order successor \<open>y\<close> is copied into \<open>z\<close> and \<open>y\<close> is the node removed; otherwise
  \<open>z\<close> is. \<open>x\<close> is the single child of the removed node, or null, and takes its place.
  If the removed node was red there is no fixup; if it was black the delete-fixup runs
  from \<open>x\<close>. The size is decremented. Freeing the key has no counterpart in the model.
\<close>

definition rbt_remove ::
  "('a \<Rightarrow> 'a \<Rightarrow> int) \<Rightarrow> 'a RedBlackTree \<Rightarrow> 'a \<Rightarrow> bool \<times> 'a RedBlackTree" where
  "rbt_remove compare tree key =
     (case locate compare key (root tree) [] of
        None \<Rightarrow> (False, tree)
      | Some (z, path) \<Rightarrow>
          (case z of
             Null \<Rightarrow> (False, tree)
           | Node zc zl zk zr \<Rightarrow>
               let (removed_color, x, xpath) =
                     (if zl \<noteq> Null \<and> zr \<noteq> Null
                      then (case leftmost zr [] of
                              (Node yc yl yk yr, ypath) \<Rightarrow>
                                (yc, yr, ypath @ RightChildOf zc zl yk # path)
                            | (Null, ypath) \<Rightarrow> (zc, zr, path))
                      else (zc, (if zl = Null then zr else zl), path))
               in (True, tree\<lparr>root := (if removed_color = Red then rebuild x xpath
                                           else delete_fixup x xpath),
                               size_t := size_t tree - 1\<rparr>)))"

subsection \<open>The red-black invariants\<close>

text \<open>
  \<open>black_counts\<close> lists, for every path from the root to a null child, the number of
  black nodes on it. \<open>rbt_inv\<close> is the conjunction of invariants (1) to (3) of the
  specification: the root is black or the tree is empty, no red node has a red child,
  and all the paths have the same number of black nodes. \<open>black_height\<close> counts along
  the leftmost path, and \<open>balanced\<close> compares the two children at every node.
\<close>

fun black_counts :: "'a rbt \<Rightarrow> nat list" where
  "black_counts Null = [0]"
| "black_counts (Node c l k r) =
     map (\<lambda>n. n + (if c = Black then 1 else 0)) (black_counts l @ black_counts r)"

fun no_red_red :: "'a rbt \<Rightarrow> bool" where
  "no_red_red Null = True"
| "no_red_red (Node c l k r) =
     ((c = Black \<or> (color_of l = Black \<and> color_of r = Black)) \<and> no_red_red l \<and> no_red_red r)"

definition rbt_inv :: "'a rbt \<Rightarrow> bool" where
  "rbt_inv t = (color_of t = Black \<and> no_red_red t \<and>
                list_all (\<lambda>n. n = hd (black_counts t)) (black_counts t))"

fun black_height :: "'a rbt \<Rightarrow> nat" where
  "black_height Null = 0"
| "black_height (Node c l k r) = black_height l + (if c = Black then 1 else 0)"

fun balanced :: "'a rbt \<Rightarrow> bool" where
  "balanced Null = True"
| "balanced (Node c l k r) = (black_height l = black_height r \<and> balanced l \<and> balanced r)"

text \<open>
  The state of the delete-fixup loop: \<open>x\<close> stands under \<open>path\<close> in the place of a subtree
  \<open>u\<close> of a red-black tree, and is one black node short of it.
\<close>

definition double_black :: "'a rbt \<Rightarrow> 'a rbt \<Rightarrow> 'a frame list \<Rightarrow> bool" where
  "double_black x u path =
     (balanced (rebuild u path) \<and> no_red_red (rebuild u path) \<and>
      color_of (rebuild u path) = Black \<and>
      black_height u = black_height x + 1 \<and> (color_of u = Black \<or> color_of x = Red))"

text \<open>A run of insertions and removals: the tree after each operation.\<close>

datatype 'a rbt_op = Insert 'a | Remove 'a

fun rbt_run ::
  "('a \<Rightarrow> 'a \<Rightarrow> int) \<Rightarrow> 'a RedBlackTree \<Rightarrow> 'a rbt_op list \<Rightarrow> 'a RedBlackTree list" where
  "rbt_run compare tree [] = []"
| "rbt_run compare tree (Insert k # ops) =
     (let tree' = snd (rbt_insert compare tree k) in tree' # rbt_run compare tree' ops)"
| "rbt_run compare tree (Remove k # ops) =
     (let tree' = snd (rbt_remove compare tree k) in tree' # rbt_run compare tree' ops)"

section \<open>Circular index arithmetic\<close>

lemma smod_nonneg: "0 \<le> a \<Longrightarrow> 0 < b \<Longrightarrow> (a::int) smod b = a mod b"
  by (simp add: smod_int_alt_def sgn_if)

lemma mod_wrap_add:
  "0 \<le> a \<Longrightarrow> a < 2 * c \<Longrightarrow> (a::int) mod c = (if a < c then a else a - c)"
proof -
  assume h: "0 \<le> a" "a < 2 * c"
  have "(a - c) mod c = a - c" if "\<not> a < c"
    using h that by (intro mod_pos_pos_trivial) auto
  then show ?thesis using h minus_mod_self2 [of a c] by auto
qed

lemma mod_wrap_sub:
  "- c \<le> a \<Longrightarrow> a < c \<Longrightarrow> (a::int) mod c = (if 0 \<le> a then a else a + c)"
proof -
  assume h: "- c \<le> a" "a < c"
  have "(a + c) mod c = a + c" if "\<not> 0 \<le> a"
    using h that by (intro mod_pos_pos_trivial) auto
  then show ?thesis using h mod_add_self2 [of a c] by auto
qed

lemma ring_succ:
  "0 \<le> i \<Longrightarrow> i < cap \<Longrightarrow> (i + 1) smod cap = (if i + 1 = cap then 0 else (i::int) + 1)"
  by (simp add: smod_nonneg)

lemma erase_loop_length:
  "length (fst (erase_loop sz cap i j buf freed)) = length buf"
  by (induction sz cap i j buf freed rule: erase_loop.induct)
    (simp add: erase_loop.simps [of _ _ _ _ _ _])

lemma erase_loop_nth:
  "0 \<le> i \<Longrightarrow> i < cap \<Longrightarrow> length buf = nat cap \<Longrightarrow> sz - j \<le> cap \<Longrightarrow> k < nat cap \<Longrightarrow>
   fst (erase_loop sz cap i j buf freed) ! k =
     (if (int k - i) mod cap < sz - j then NULL else buf ! k)"
proof (induction sz cap i j buf freed rule: erase_loop.induct)
  case (1 sz cap i j buf freed)
  show ?case
  proof (cases "j < sz")
    case False
    have "0 \<le> (int k - i) mod cap" using "1.prems" by simp
    with False show ?thesis by (simp add: erase_loop.simps [of sz cap i j buf freed])
  next
    case True
    let ?i = "(i + 1) smod cap"
    have i': "?i = (if i + 1 = cap then 0 else i + 1)"
      using "1.prems" by (simp add: ring_succ)
    have IH: "fst (erase_loop sz cap ?i (j + 1) (buf[nat i := NULL]) (freed @ [buf ! nat i])) ! k =
          (if (int k - ?i) mod cap < sz - (j + 1) then NULL else buf[nat i := NULL] ! k)"
      using "1.prems" by (intro "1.IH" [OF True]) (auto simp: i')
    have eq: "erase_loop sz cap i j buf freed =
          erase_loop sz cap ?i (j + 1) (buf[nat i := NULL]) (freed @ [buf ! nat i])"
      using True by (simp add: erase_loop.simps [of sz cap i j buf freed])
    show ?thesis
    proof (cases "int k = i")
      case True
      then have "(int k - i) mod cap = 0" by simp
      moreover have "k = nat i" using True by simp
      ultimately show ?thesis
        unfolding eq IH using \<open>j < sz\<close> "1.prems" by simp
    next
      case False
      then have kn: "k \<noteq> nat i" using "1.prems" by auto
      have m1: "(int k - i) mod cap = (if i \<le> int k then int k - i else int k - i + cap)"
        using "1.prems" by (simp add: mod_wrap_sub)
      have "(int k - ?i) mod cap = (int k - i) mod cap - 1"
      proof (cases "i + 1 = cap")
        case True
        then have "?i = 0" using i' by simp
        then show ?thesis unfolding m1 using True False "1.prems" by simp
      next
        case c: False
        then have "?i = i + 1" using i' by simp
        moreover have "(int k - (i + 1)) mod cap =
            (if 0 \<le> int k - (i + 1) then int k - (i + 1) else int k - (i + 1) + cap)"
          using "1.prems" by (intro mod_wrap_sub) auto
        ultimately show ?thesis unfolding m1 using False by auto
      qed
      then show ?thesis
        unfolding eq IH using kn by (simp add: less_diff_eq)
    qed
  qed
qed

lemma erase_loop_freed:
  "0 \<le> i \<Longrightarrow> i < cap \<Longrightarrow> length buf = nat cap \<Longrightarrow> sz - j \<le> cap \<Longrightarrow>
   snd (erase_loop sz cap i j buf freed) =
     freed @ map (\<lambda>t. buf ! nat ((i + int t) mod cap)) [0..<nat (sz - j)]"
proof (induction sz cap i j buf freed rule: erase_loop.induct)
  case (1 sz cap i j buf freed)
  show ?case
  proof (cases "j < sz")
    case False
    then show ?thesis by (simp add: erase_loop.simps [of sz cap i j buf freed])
  next
    case True
    let ?i = "(i + 1) smod cap"
    let ?buf = "buf[nat i := NULL]"
    have i': "?i = (if i + 1 = cap then 0 else i + 1)"
      using "1.prems" by (simp add: ring_succ)
    have IH: "snd (erase_loop sz cap ?i (j + 1) ?buf (freed @ [buf ! nat i])) =
          (freed @ [buf ! nat i]) @ map (\<lambda>t. ?buf ! nat ((?i + int t) mod cap)) [0..<nat (sz - (j + 1))]"
      using "1.prems" by (intro "1.IH" [OF True]) (auto simp: i')
    have n: "nat (sz - j) = Suc (nat (sz - (j + 1)))" using True by simp
    have step: "?buf ! nat ((?i + int t) mod cap) = buf ! nat ((i + int (Suc t)) mod cap)"
      if "t < nat (sz - (j + 1))" for t
    proof -
      have a: "(?i + int t) mod cap = (i + int (Suc t)) mod cap"
        unfolding i' by (cases "i + 1 = cap") (simp_all add: add.assoc, metis add.assoc mod_add_self1)
      have b: "(i + int (Suc t)) mod cap \<noteq> i"
      proof -
        have "int t + 1 < cap" using "1.prems" that by linarith
        then show ?thesis using "1.prems" by (simp add: mod_wrap_add)
      qed
      have c: "0 \<le> (i + int (Suc t)) mod cap" using "1.prems" by simp
      show ?thesis unfolding a using b c "1.prems" by (simp add: nth_list_update nat_eq_iff)
    qed
    have "map (\<lambda>t. buf ! nat ((i + int t) mod cap)) [0..<nat (sz - j)] =
          buf ! nat i # map (\<lambda>t. ?buf ! nat ((?i + int t) mod cap)) [0..<nat (sz - (j + 1))]"
      unfolding n upt_rec [of 0 "Suc _"] using "1.prems" step
      by (simp add: map_Suc_upt [symmetric] del: upt_Suc)
    moreover have "erase_loop sz cap i j buf freed = erase_loop sz cap ?i (j + 1) ?buf (freed @ [buf ! nat i])"
      using True by (simp add: erase_loop.simps [of sz cap i j buf freed])
    ultimately show ?thesis using IH by simp
  qed
qed

section \<open>Enqueue and dequeue on the logical sequence\<close>

lemma ring_neq:
  "0 \<le> f \<Longrightarrow> f < cap \<Longrightarrow> 0 \<le> a \<Longrightarrow> a < cap \<Longrightarrow> 0 \<le> b \<Longrightarrow> b < cap \<Longrightarrow> a \<noteq> b \<Longrightarrow>
   (f + a) mod cap \<noteq> (f + b) mod (cap::int)"
  by (simp add: mod_wrap_add)

lemma ring_nonneg: "0 < cap \<Longrightarrow> 0 \<le> (x::int) mod cap \<and> x mod cap < cap"
  by simp

lemma logical_seq_length [simp]: "length (logical_seq q) = nat (size_q q)"
  by (simp add: logical_seq_def)

lemma logical_seq_nth:
  "j < nat (size_q q) \<Longrightarrow> logical_seq q ! j = buffer q ! nat ((front q + int j) mod capacity q)"
  by (simp add: logical_seq_def)

lemma byte_count_cells: "byte_count c = 8 * (c mod 2 ^ 61)"
proof -
  have "(8 * (c mod 2 ^ 64)) mod (8 * 2 ^ 61) = 8 * ((c mod 2 ^ 64) mod 2 ^ 61)"
    by (rule mult_mod_right [symmetric])
  moreover have "(c mod 2 ^ 64) mod 2 ^ 61 = c mod (2 ^ 61 :: int)"
    by (rule mod_mod_cancel) simp
  ultimately show ?thesis by (simp add: byte_count_def)
qed

lemma byte_count_fits: "0 \<le> c \<Longrightarrow> c < 2 ^ 61 \<Longrightarrow> byte_count c = 8 * c"
  by (simp add: byte_count_cells)

lemma byte_count_wraps: "0 \<le> c \<Longrightarrow> \<not> byte_count c div 8 < c \<Longrightarrow> c < 2 ^ 61"
proof -
  assume c: "0 \<le> c" and n: "\<not> byte_count c div 8 < c"
  have "c mod 2 ^ 61 < 2 ^ 61" by simp
  moreover have "byte_count c div 8 = c mod 2 ^ 61" by (simp add: byte_count_cells)
  ultimately show ?thesis using n by linarith
qed

lemma qua_create_inv:
  assumes "qua_create a b c r = Inr (Some q)"
  shows "qua_inv q \<and> size_q q = 0 \<and> logical_seq q = [] \<and> capacity q = c \<and>
         growth_rate q = r \<and> c < 2 ^ 61 \<and> 100 < r"
proof -
  have c: "0 < c" "100 < r" "\<not> byte_count c div 8 < c"
    and q: "q = \<lparr>buffer = replicate (nat c) NULL, front = 0, rear = 0, size_q = 0,
                  capacity = c, growth_rate = r, locked = False, version_id = 0\<rparr>"
    using assms by (auto simp: qua_create_def split: if_splits)
  have "c < 2 ^ 61" using c by (intro byte_count_wraps) simp_all
  then show ?thesis using c by (simp add: q qua_inv_def logical_seq_def)
qed

lemma qua_new_inv:
  "qua_new a b = Some q \<Longrightarrow>
   qua_inv q \<and> size_q q = 0 \<and> logical_seq q = [] \<and> capacity q = 32 \<and> growth_rate q = 200"
  by (auto simp: qua_new_def qua_inv_def logical_seq_def split: if_splits)

lemma qua_dequeue_empty: "size_q q = 0 \<Longrightarrow> qua_dequeue q = (False, NULL, q)"
  by (simp add: qua_dequeue_def qua_empty_def)

lemma qua_dequeue_step:
  assumes inv: "qua_inv q" and ne: "size_q q \<noteq> 0"
  obtains q' where "qua_dequeue q = (True, hd (logical_seq q), q')"
    and "qua_inv q'" and "logical_seq q' = tl (logical_seq q)"
    and "size_q q' = size_q q - 1" and "version_id q' = version_id q + 1"
    and "capacity q' = capacity q"
proof -
  let ?f = "front q" and ?c = "capacity q" and ?n = "size_q q"
  let ?f' = "if ?f = ?c - 1 then 0 else ?f + 1"
  define q' where "q' = q\<lparr>buffer := (buffer q)[nat ?f := NULL], front := ?f',
                         size_q := ?n - 1, version_id := version_id q + 1\<rparr>"
  have b: "0 < ?c" "length (buffer q) = nat ?c" "0 \<le> ?f" "?f < ?c" "0 < ?n" "?n \<le> ?c"
    "rear q = (?f + ?n) mod ?c"
    using inv ne by (auto simp: qua_inv_def)
  have f': "?f' = (?f + 1) mod ?c" using b by (simp add: mod_wrap_add)
  have "logical_seq q \<noteq> []" using b by (auto simp flip: length_0_conv)
  then have "hd (logical_seq q) = logical_seq q ! 0" by (simp add: hd_conv_nth)
  also have "\<dots> = buffer q ! nat ?f" using b by (simp add: logical_seq_nth)
  finally have hd: "hd (logical_seq q) = buffer q ! nat ?f" .
  have deq: "qua_dequeue q = (True, hd (logical_seq q), q')"
    using ne by (simp add: qua_dequeue_def qua_empty_def hd q'_def Let_def)
  have "(?f' + (?n - 1)) mod ?c = (?f + ?n) mod ?c"
    unfolding f' by (simp add: mod_add_left_eq)
  then have inv': "qua_inv q'"
    using b unfolding qua_inv_def q'_def by auto
  have "logical_seq q' ! j = tl (logical_seq q) ! j" if "j < nat (?n - 1)" for j
  proof -
    have j: "int j + 1 < ?c" using that b by linarith
    have e: "(?f' + int j) mod ?c = (?f + int (Suc j)) mod ?c"
      unfolding f' by (simp add: mod_add_left_eq add.assoc)
    have "(?f + int (Suc j)) mod ?c \<noteq> (?f + 0) mod ?c"
      using b j by (intro ring_neq) auto
    then have "nat ((?f + int (Suc j)) mod ?c) \<noteq> nat ?f"
      using b by (simp add: nat_eq_iff)
    then show ?thesis
      using that b e by (simp add: logical_seq_nth nth_tl q'_def)
  qed
  then have seq: "logical_seq q' = tl (logical_seq q)"
    using b by (intro nth_equalityI) (simp_all add: q'_def nat_diff_distrib)
  show ?thesis
    by (rule that [OF deq inv' seq]) (simp_all add: q'_def)
qed

lemma qua_enqueue_room:
  assumes inv: "qua_inv q" and room: "size_q q \<noteq> capacity q"
  obtains q' where "qua_enqueue ra q x = Inr (True, q')"
    and "qua_inv q'" and "logical_seq q' = logical_seq q @ [x]"
    and "size_q q' = size_q q + 1" and "version_id q' = version_id q + 1"
    and "capacity q' = capacity q" and "growth_rate q' = growth_rate q"
proof -
  let ?f = "front q" and ?c = "capacity q" and ?n = "size_q q" and ?r = "rear q"
  define q' where "q' = q\<lparr>buffer := (buffer q)[nat ?r := x],
      rear := (if ?r = ?c - 1 then 0 else ?r + 1), size_q := ?n + 1, version_id := version_id q + 1\<rparr>"
  have b: "0 < ?c" "length (buffer q) = nat ?c" "0 \<le> ?f" "?f < ?c" "0 \<le> ?n" "?n < ?c"
    "?r = (?f + ?n) mod ?c"
    using inv room by (auto simp: qua_inv_def)
  have r: "0 \<le> ?r" "?r < ?c" using b by simp_all
  have "in_block (buffer q) ?r" using b r by (simp add: in_block_def)
  then have enq: "qua_enqueue ra q x = Inr (True, q')"
    using room by (simp add: qua_enqueue_def qua_full_def q'_def Let_def)
  have "(if ?r = ?c - 1 then 0 else ?r + 1) = (?r + 1) mod ?c"
    using r by (simp add: mod_wrap_add)
  also have "\<dots> = (?f + (?n + 1)) mod ?c"
    unfolding b(7) by (simp add: mod_add_left_eq add.assoc)
  finally have inv': "qua_inv q'"
    using b unfolding qua_inv_def q'_def by auto
  have "logical_seq q' ! j = (logical_seq q @ [x]) ! j" if "j < nat (?n + 1)" for j
  proof (cases "j < nat ?n")
    case True
    have "(?f + int j) mod ?c \<noteq> (?f + ?n) mod ?c"
      using b True by (intro ring_neq) auto
    then have "nat ((?f + int j) mod ?c) \<noteq> nat ?r"
      using b r by (simp add: nat_eq_iff)
    then show ?thesis
      using that True b by (simp add: logical_seq_nth nth_append q'_def)
  next
    case False
    then have "int j = ?n" using that b by linarith
    then show ?thesis
      using that False b r by (simp add: logical_seq_nth nth_append q'_def)
  qed
  then have seq: "logical_seq q' = logical_seq q @ [x]"
    using b by (intro nth_equalityI) (simp_all add: q'_def nat_add_distrib)
  show ?thesis
    by (rule that [OF enq inv' seq]) (simp_all add: q'_def)
qed

section \<open>The two loops of the growth\<close>

lemma shift_right_loop_nth:
  "0 \<le> fr \<Longrightarrow> i < j \<Longrightarrow> nat j < length buf \<Longrightarrow>
   \<exists>buf'. shift_right_loop fr i j buf = Inr buf' \<and> length buf' = length buf \<and>
     (\<forall>k < length buf. buf' ! k =
        (if j - (i - fr) - 1 < int k \<and> int k \<le> j then buf ! nat (int k - (j - i)) else buf ! k))"
proof (induction fr i j buf rule: shift_right_loop.induct)
  case (1 fr i j buf)
  show ?case
  proof (cases "fr \<le> i")
    case False
    then show ?thesis by (simp add: shift_right_loop.simps [of fr i j buf])
  next
    case True
    let ?buf = "buf[nat j := buf ! nat i]"
    have blk: "in_block buf i \<and> in_block buf j"
      using "1.prems" True by (auto simp: in_block_def)
    have "\<exists>buf'. shift_right_loop fr (i - 1) (j - 1) ?buf = Inr buf' \<and>
        length buf' = length ?buf \<and>
        (\<forall>k < length ?buf. buf' ! k =
          (if j - 1 - (i - 1 - fr) - 1 < int k \<and> int k \<le> j - 1
           then ?buf ! nat (int k - (j - 1 - (i - 1))) else ?buf ! k))"
      using "1.prems" True blk by (intro "1.IH") auto
    then obtain buf' where r: "shift_right_loop fr (i - 1) (j - 1) ?buf = Inr buf'"
      and len: "length buf' = length buf"
      and IH: "\<And>k. k < length buf \<Longrightarrow> buf' ! k =
          (if j - 1 - (i - 1 - fr) - 1 < int k \<and> int k \<le> j - 1
           then ?buf ! nat (int k - (j - 1 - (i - 1))) else ?buf ! k)"
      by auto
    have eq: "shift_right_loop fr i j buf = Inr buf'"
      using True blk r by (simp add: shift_right_loop.simps [of fr i j buf])
    have "buf' ! k =
        (if j - (i - fr) - 1 < int k \<and> int k \<le> j then buf ! nat (int k - (j - i)) else buf ! k)"
      if k: "k < length buf" for k
    proof (cases "int k = j")
      case kj: True
      then have "k = nat j" by simp
      then show ?thesis unfolding IH [OF k] using kj True "1.prems" by simp
    next
      case kj: False
      then have kn: "k \<noteq> nat j" using "1.prems" True by auto
      show ?thesis
      proof (cases "j - (i - fr) - 1 < int k \<and> int k \<le> j")
        case False
        then show ?thesis unfolding IH [OF k] using kj kn by auto
      next
        case in_range: True
        then have "nat (int k - (j - i)) \<noteq> nat j" using kj "1.prems" by auto
        then show ?thesis unfolding IH [OF k] using in_range kj kn by auto
      qed
    qed
    then show ?thesis using eq len by simp
  qed
qed

lemma append_left_loop_nth:
  "0 \<le> i \<Longrightarrow> rr \<le> old \<Longrightarrow> 0 < old \<Longrightarrow> old < cap \<Longrightarrow> length buf = nat cap \<Longrightarrow>
   j = (if old + i < cap then old + i else old + i - cap) \<Longrightarrow>
   \<exists>buf'. append_left_loop rr cap i j buf = Inr buf' \<and> length buf' = length buf \<and>
     (\<forall>k < nat cap. buf' ! k =
       (if i \<le> (if old \<le> int k then int k - old else int k - old + cap) \<and>
           (if old \<le> int k then int k - old else int k - old + cap) < rr
        then buf ! nat (if old \<le> int k then int k - old else int k - old + cap)
        else buf ! k))"
proof (induction rr cap i j buf rule: append_left_loop.induct)
  case (1 rr cap i j buf)
  show ?case
  proof (cases "i < rr")
    case False
    then show ?thesis by (simp add: append_left_loop.simps [of rr cap i j buf])
  next
    case True
    let ?buf = "buf[nat j := buf ! nat i]"
    let ?j = "(j + 1) smod cap"
    have j: "0 \<le> j" "j < cap" using "1.prems" True by (auto split: if_splits)
    have j': "?j = (if old + (i + 1) < cap then old + (i + 1) else old + (i + 1) - cap)"
      using j "1.prems" True by (auto simp: ring_succ split: if_splits)
    have blk: "in_block buf i \<and> in_block buf j"
      using "1.prems" True j by (auto simp: in_block_def)
    have "\<exists>buf'. append_left_loop rr cap (i + 1) ?j ?buf = Inr buf' \<and>
        length buf' = length ?buf \<and>
        (\<forall>k < nat cap. buf' ! k =
          (if i + 1 \<le> (if old \<le> int k then int k - old else int k - old + cap) \<and>
              (if old \<le> int k then int k - old else int k - old + cap) < rr
           then ?buf ! nat (if old \<le> int k then int k - old else int k - old + cap)
           else ?buf ! k))"
      using "1.prems" True j' blk by (intro "1.IH") auto
    then obtain buf' where r: "append_left_loop rr cap (i + 1) ?j ?buf = Inr buf'"
      and len: "length buf' = length buf"
      and IH: "\<And>k. k < nat cap \<Longrightarrow> buf' ! k =
          (if i + 1 \<le> (if old \<le> int k then int k - old else int k - old + cap) \<and>
              (if old \<le> int k then int k - old else int k - old + cap) < rr
           then ?buf ! nat (if old \<le> int k then int k - old else int k - old + cap)
           else ?buf ! k)"
      by auto
    have eq: "append_left_loop rr cap i j buf = Inr buf'"
      using True blk r by (simp add: append_left_loop.simps [of rr cap i j buf])
    have "buf' ! k =
       (if i \<le> (if old \<le> int k then int k - old else int k - old + cap) \<and>
           (if old \<le> int k then int k - old else int k - old + cap) < rr
        then buf ! nat (if old \<le> int k then int k - old else int k - old + cap)
        else buf ! k)"
      if k: "k < nat cap" for k
    proof -
      define src where "src = (if old \<le> int k then int k - old else int k - old + cap)"
      have IH': "buf' ! k = (if i + 1 \<le> src \<and> src < rr then ?buf ! nat src else ?buf ! k)"
        unfolding src_def by (rule IH [OF k])
      have src_j: "src = i \<longleftrightarrow> int k = j"
        unfolding src_def using "1.prems" True k by (auto split: if_splits)
      have goal: "buf' ! k = (if i \<le> src \<and> src < rr then buf ! nat src else buf ! k)"
      proof (cases "int k = j")
        case kj: True
        then have "k = nat j" by simp
        moreover have "src = i" using kj src_j by simp
        ultimately show ?thesis unfolding IH' using True "1.prems" j by simp
      next
        case kj: False
        then have kn: "k \<noteq> nat j" using j by auto
        have si: "src \<noteq> i" using kj src_j by simp
        show ?thesis
        proof (cases "i + 1 \<le> src \<and> src < rr")
          case False
          then have "\<not> (i \<le> src \<and> src < rr)" using si by auto
          then show ?thesis unfolding IH' using False kn by auto
        next
          case in_range: True
          then have "src \<noteq> j"
            unfolding src_def using "1.prems" True k by (auto split: if_splits)
          then have "nat src \<noteq> nat j" using in_range "1.prems" j by (simp add: nat_eq_iff)
          moreover have "i \<le> src \<and> src < rr" using in_range by auto
          ultimately show ?thesis unfolding IH' using in_range by auto
        qed
      qed
      show ?thesis using goal unfolding src_def .
    qed
    then show ?thesis using eq len by simp
  qed
qed

section \<open>Growth keeps the logical sequence\<close>

lemma realloc_buf_length: "length buf \<le> n \<Longrightarrow> length (realloc_buf junk buf n) = n"
  by (simp add: realloc_buf_def)

lemma realloc_buf_nth:
  "length buf \<le> n \<Longrightarrow> k < length buf \<Longrightarrow> realloc_buf junk buf n ! k = buf ! k"
  by (simp add: realloc_buf_def nth_append)

lemma grown_capacity_ge: "grown_capacity q = Inr n \<Longrightarrow> capacity q + 4 \<le> n"
  by (auto simp: grown_capacity_def split: sum.splits if_splits)

lemma realloc_bytes_fits:
  "0 < n \<Longrightarrow> n < 2 ^ 61 \<Longrightarrow>
   realloc_bytes (AllocOk junk) buf (byte_count n) = Inr (Some (realloc_buf junk buf (nat n)))"
  by (simp add: realloc_bytes_def byte_count_fits)

lemma qua_grow_full:
  assumes inv: "qua_inv q" and full: "size_q q = capacity q" and unlocked: "\<not> locked q"
    and gc: "grown_capacity q = Inr nc" and fits: "nc < 2 ^ 61"
  obtains q' where "qua_grow (AllocOk junk) q = Inr (True, q')"
    and "qua_inv q'" and "logical_seq q' = logical_seq q"
    and "size_q q' = size_q q"
    and "capacity q' = nc"
    and "version_id q' = version_id q" and "growth_rate q' = growth_rate q"
    and "locked q' = locked q"
proof -
  define c where "c = capacity q"
  define f where "f = front q"
  define buf1 where "buf1 = realloc_buf junk (buffer q) (nat nc)"
  have b: "0 < c" "length (buffer q) = nat c" "0 \<le> f" "f < c" "size_q q = c"
    using inv full by (auto simp: qua_inv_def c_def f_def)
  have r: "rear q = f"
    using inv full b by (simp add: qua_inv_def c_def f_def)
  have nc: "c + 4 \<le> nc" using grown_capacity_ge [OF gc] by (simp add: c_def)
  have rb: "realloc_bytes (AllocOk junk) (buffer q) (byte_count nc) = Inr (Some buf1)"
    unfolding buf1_def using b nc fits by (intro realloc_bytes_fits) simp_all
  have len1: "length buf1 = nat nc"
    unfolding buf1_def using b nc by (intro realloc_buf_length) simp
  have nth1: "buf1 ! k = buffer q ! k" if "k < nat c" for k
    unfolding buf1_def using b nc that by (intro realloc_buf_nth) simp_all
  define q3 where "q3 = q\<lparr>capacity := nc, buffer := buf1\<rparr>"
  have old: "logical_seq q ! j = buffer q ! nat (if f + int j < c then f + int j else f + int j - c)"
    if "j < nat c" for j
    using that b by (simp add: logical_seq_nth mod_wrap_add flip: c_def f_def)
  have grow_eq: "qua_grow (AllocOk junk) q =
     (if (if f = 0 then c - 1 else f - 1) < f then
        if c - f < f then
          case shift_right_loop f (c - 1) (nc - 1) buf1 of
            Inl e \<Rightarrow> Inl e
          | Inr buf \<Rightarrow> Inr (True, q3\<lparr>buffer := buf, front := nc - (c - f)\<rparr>)
        else
          case append_left_loop f nc 0 c buf1 of
            Inl e \<Rightarrow> Inl e
          | Inr buf \<Rightarrow> Inr (True, q3\<lparr>buffer := buf, rear := (c + f) smod nc\<rparr>)
      else if f = 0 then Inr (True, q3\<lparr>rear := c\<rparr>)
      else Inr (False, q3))"
    using unlocked r [unfolded f_def] gc rb
    by (simp add: qua_grow_def Let_def q3_def c_def f_def split: sum.split)
  consider (start) "f = 0" | (right) "0 < f" "c - f < f" | (left) "0 < f" "\<not> c - f < f"
    using b by fastforce
  then show ?thesis
  proof cases
    case start
    define q' where "q' = q3\<lparr>rear := c\<rparr>"
    have g: "qua_grow (AllocOk junk) q = Inr (True, q')"
      unfolding grow_eq q'_def using start b by simp
    have i: "qua_inv q'"
      using b nc len1 start by (simp add: qua_inv_def q'_def q3_def flip: c_def f_def)
    have "logical_seq q' ! j = logical_seq q ! j" if "j < nat c" for j
    proof -
      have "logical_seq q' ! j = buf1 ! j"
        using that b nc start by (simp add: logical_seq_nth q'_def q3_def flip: c_def f_def)
      also have "\<dots> = buffer q ! j" using that by (rule nth1)
      also have "\<dots> = logical_seq q ! j"
      proof -
        have "int j < c" using that by linarith
        then show ?thesis unfolding old [OF that] using start by simp
      qed
      finally show ?thesis .
    qed
    then have s: "logical_seq q' = logical_seq q"
      using b by (intro nth_equalityI) (simp_all add: q'_def q3_def)
    show ?thesis
      by (rule that [OF g i s]) (simp_all add: q'_def q3_def c_def)
  next
    case right
    have "\<exists>buf'. shift_right_loop f (c - 1) (nc - 1) buf1 = Inr buf' \<and>
        length buf' = length buf1 \<and>
        (\<forall>k < length buf1. buf' ! k =
          (if nc - 1 - (c - 1 - f) - 1 < int k \<and> int k \<le> nc - 1
           then buf1 ! nat (int k - (nc - 1 - (c - 1))) else buf1 ! k))"
      using b nc len1 by (intro shift_right_loop_nth) auto
    then obtain buf2 where loop: "shift_right_loop f (c - 1) (nc - 1) buf1 = Inr buf2"
      and len2: "length buf2 = nat nc"
      and loop_nth: "\<And>k. k < nat nc \<Longrightarrow> buf2 ! k =
          (if nc - 1 - (c - 1 - f) - 1 < int k \<and> int k \<le> nc - 1
           then buf1 ! nat (int k - (nc - 1 - (c - 1))) else buf1 ! k)"
      using len1 by auto
    define q' where "q' = q3\<lparr>buffer := buf2, front := nc - (c - f)\<rparr>"
    have g: "qua_grow (AllocOk junk) q = Inr (True, q')"
      unfolding grow_eq q'_def using right b loop by simp
    have "nc - (c - f) + c = f + nc" by simp
    moreover have "(f + nc) mod nc = f" using b nc by simp
    ultimately have rr: "(nc - (c - f) + c) mod nc = f" by simp
    have i: "qua_inv q'"
      unfolding qua_inv_def q'_def q3_def using b nc len2 right r rr full
      by (simp add: c_def [symmetric])
    have nth2: "buf2 ! k =
        (if nc - (c - f) \<le> int k then buf1 ! nat (int k - (nc - c)) else buf1 ! k)"
      if "k < nat nc" for k
    proof -
      have "buf2 ! k =
        (if nc - 1 - (c - 1 - f) - 1 < int k \<and> int k \<le> nc - 1
         then buf1 ! nat (int k - (nc - 1 - (c - 1))) else buf1 ! k)"
        using that by (rule loop_nth)
      moreover have "nc - 1 - (c - 1 - f) - 1 < int k \<and> int k \<le> nc - 1 \<longleftrightarrow> nc - (c - f) \<le> int k"
        using that by auto
      moreover have "int k - (nc - 1 - (c - 1)) = int k - (nc - c)" by simp
      ultimately show ?thesis by simp
    qed
    have "logical_seq q' ! j = logical_seq q ! j" if "j < nat c" for j
    proof -
      have jc: "int j < c" using that by linarith
      define p where "p = (nc - (c - f) + int j) mod nc"
      have p: "p = (if int j < c - f then nc - (c - f) + int j else int j - (c - f))"
        unfolding p_def using jc b nc by (subst mod_wrap_add) auto
      have pb: "0 \<le> p" "p < nc" using b nc by (simp_all add: p_def)
      have "logical_seq q' ! j = buf2 ! nat p"
        using that b by (simp add: logical_seq_nth q'_def q3_def p_def flip: c_def)
      also have "\<dots> = buffer q ! nat (if f + int j < c then f + int j else f + int j - c)"
      proof (cases "int j < c - f")
        case True
        then have pp: "p = nc - (c - f) + int j" using p by simp
        have "buf2 ! nat p = buf1 ! nat (int (nat p) - (nc - c))"
          using pb pp nth2 [of "nat p"] by simp
        also have "int (nat p) - (nc - c) = f + int j" using pb pp by simp
        also have "buf1 ! nat (f + int j) = buffer q ! nat (f + int j)"
          using True b by (intro nth1) simp
        finally show ?thesis using True by simp
      next
        case False
        then have pp: "p = int j - (c - f)" using p by simp
        have "buf2 ! nat p = buf1 ! nat p"
          using pb pp jc b nc nth2 [of "nat p"] by simp
        also have "\<dots> = buffer q ! nat p"
          using pp pb jc b by (intro nth1) simp
        finally have "buf2 ! nat p = buffer q ! nat p" .
        moreover have "\<not> f + int j < c" using False by simp
        moreover have "p = f + int j - c" using pp by simp
        ultimately show ?thesis by simp
      qed
      finally show ?thesis using that old by simp
    qed
    then have s: "logical_seq q' = logical_seq q"
      using b by (intro nth_equalityI) (simp_all add: q'_def q3_def)
    show ?thesis
      by (rule that [OF g i s]) (simp_all add: q'_def q3_def c_def)
  next
    case left
    have "\<exists>buf'. append_left_loop f nc 0 c buf1 = Inr buf' \<and> length buf' = length buf1 \<and>
        (\<forall>k < nat nc. buf' ! k =
          (if 0 \<le> (if c \<le> int k then int k - c else int k - c + nc) \<and>
              (if c \<le> int k then int k - c else int k - c + nc) < f
           then buf1 ! nat (if c \<le> int k then int k - c else int k - c + nc)
           else buf1 ! k))"
      using b nc len1 left by (intro append_left_loop_nth) auto
    then obtain buf2 where loop: "append_left_loop f nc 0 c buf1 = Inr buf2"
      and len2: "length buf2 = nat nc"
      and nth2: "\<And>k. k < nat nc \<Longrightarrow> buf2 ! k =
        (if 0 \<le> (if c \<le> int k then int k - c else int k - c + nc) \<and>
            (if c \<le> int k then int k - c else int k - c + nc) < f
         then buf1 ! nat (if c \<le> int k then int k - c else int k - c + nc)
         else buf1 ! k)"
      using len1 by auto
    define q' where "q' = q3\<lparr>buffer := buf2, rear := (c + f) smod nc\<rparr>"
    have g: "qua_grow (AllocOk junk) q = Inr (True, q')"
      unfolding grow_eq q'_def using left b loop by simp
    have "(c + f) smod nc = (f + c) mod nc"
      using b nc by (simp add: smod_nonneg add.commute)
    then have i: "qua_inv q'"
      using b nc len2 left
      by (simp add: qua_inv_def q'_def q3_def flip: c_def f_def)
    have "logical_seq q' ! j = logical_seq q ! j" if "j < nat c" for j
    proof -
      let ?p = "(f + int j) mod nc"
      have p: "?p = (if f + int j < nc then f + int j else f + int j - nc)"
        using that b nc by (simp add: mod_wrap_add)
      have "logical_seq q' ! j = buf2 ! nat ?p"
        using that b by (simp add: logical_seq_nth q'_def q3_def flip: c_def f_def)
      also have "\<dots> = buffer q ! nat (if f + int j < c then f + int j else f + int j - c)"
      proof (cases "f + int j < c")
        case True
        then have "buf2 ! nat ?p = buf1 ! nat (f + int j)"
          unfolding p using that b nc by (subst nth2) auto
        then show ?thesis using True b nth1 [of "nat (f + int j)"] by simp
      next
        case False
        have "buf2 ! nat ?p = buf1 ! nat (f + int j - c)"
        proof (cases "f + int j < nc")
          case True
          then show ?thesis
            unfolding p using False that b nc by (subst nth2) auto
        next
          case wrap: False
          then show ?thesis
            unfolding p using False that b nc
            by (subst nth2) (auto intro!: arg_cong [where f = "nth buf1"])
        qed
        then show ?thesis
          using False that b nth1 [of "nat (f + int j - c)"] by simp
      qed
      finally show ?thesis using that old by simp
    qed
    then have s: "logical_seq q' = logical_seq q"
      using b by (intro nth_equalityI) (simp_all add: q'_def q3_def)
    show ?thesis
      by (rule that [OF g i s]) (simp_all add: q'_def q3_def c_def)
  qed
qed

section \<open>The truncated double precision product against the exact quotient\<close>

lemma round53_small: "bitlen \<bar>m\<bar> \<le> 53 \<Longrightarrow> round53 m e = (m, e)"
  by (simp add: round53_def)

lemma round53_error:
  assumes "0 < m"
  obtains m' t where "round53 m e = (m', e + int t)" and "0 \<le> m'"
    and "\<bar>m' * 2 ^ t - m\<bar> * 2 ^ 53 \<le> m"
proof (cases "bitlen m \<le> 53")
  case True
  then have "round53 m e = (m, e + int 0)" using assms by (simp add: round53_def)
  then show ?thesis using assms that [of m 0] by simp
next
  case False
  define t where "t = nat (bitlen m - 53)"
  define q where "q = m div 2 ^ t"
  define r where "r = m mod 2 ^ t"
  define q' where "q' = (if r > 2 ^ (t - 1) \<or> (r = 2 ^ (t - 1) \<and> q mod 2 = 1) then q + 1 else q)"
  have t: "0 < t" "int t = bitlen m - 53" using False by (simp_all add: t_def)
  have m: "m = q * 2 ^ t + r"
    unfolding q_def r_def by (rule div_mult_mod_eq [symmetric])
  have r: "0 \<le> r" "r < 2 ^ t" by (simp_all add: r_def)
  have q: "0 \<le> q" using assms by (simp add: q_def pos_imp_zdiv_nonneg_iff)
  have pw: "(2::int) ^ t = 2 * 2 ^ (t - 1)" using t by (cases t) simp_all
  have n: "\<bar>m\<bar> = m" "sgn m = 1" "\<not> bitlen m - 53 \<le> 0"
    "nat (bitlen m - 53) = t" "nat (bitlen m - 53 - 1) = t - 1" "bitlen m - 53 = int t"
    using assms False by (simp_all add: t_def)
  have eq: "round53 m e = (q', e + int t)"
  proof -
    have h: "nat (int t - 1) = t - 1" by simp
    show ?thesis unfolding round53_def Let_def n q'_def q_def r_def h by simp
  qed
  have err: "\<bar>q' * 2 ^ t - m\<bar> \<le> 2 ^ (t - 1)"
  proof (cases "q' = q")
    case True
    then have "r \<le> 2 ^ (t - 1)" by (auto simp: q'_def split: if_splits)
    then show ?thesis using True r by (simp add: m)
  next
    case False
    then have q1: "q' = q + 1" and "2 ^ (t - 1) \<le> r" by (auto simp: q'_def split: if_splits)
    then have "\<bar>q' * 2 ^ t - m\<bar> = 2 ^ t - r" using r by (simp add: m algebra_simps)
    then show ?thesis using \<open>2 ^ (t - 1) \<le> r\<close> pw by simp
  qed
  have "(2::int) ^ (t - 1) * 2 ^ 53 = 2 ^ nat (bitlen m - 1)"
  proof -
    have "nat (bitlen m - 1) = (t - 1) + 53" using t by (simp add: t_def)
    then show ?thesis by (simp add: power_add)
  qed
  also have "\<dots> \<le> m" using bitlen_bounds [OF assms] by simp
  finally have "2 ^ (t - 1) * 2 ^ 53 \<le> m" .
  moreover have "\<bar>q' * 2 ^ t - m\<bar> * 2 ^ 53 \<le> 2 ^ (t - 1) * 2 ^ 53"
    using err by (intro mult_right_mono) simp_all
  ultimately have "\<bar>q' * 2 ^ t - m\<bar> * 2 ^ 53 \<le> m" by linarith
  moreover have "0 \<le> q'" using q by (simp add: q'_def)
  ultimately show ?thesis using eq that [of q' t] by simp
qed

lemma bitlen_100: "bitlen 100 = 7"
  by code_simp

lemma dbl_of_int_exact: "0 < n \<Longrightarrow> n < 2 ^ 53 \<Longrightarrow> dbl_of_int n = (n, 0)"
proof -
  assume "0 < n" "n < 2 ^ 53"
  then have "bitlen \<bar>n\<bar> \<le> 53" by (simp add: bitlen_le_iff_power)
  then show ?thesis by (simp add: dbl_of_int_def round53_small)
qed

lemma int_of_dbl_bounds:
  assumes "0 \<le> m" and "(L :: int) * 2 ^ 72 < m * 2 ^ t" and "m * 2 ^ t < U * 2 ^ 72"
  shows "L \<le> int_of_dbl (m, int t - 72) \<and> int_of_dbl (m, int t - 72) < U"
proof (cases "72 \<le> t")
  case True
  define j where "j = t - 72"
  have t: "t = j + 72" using True by (simp add: j_def)
  have v: "int_of_dbl (m, int t - 72) = m * 2 ^ j"
    using True by (simp add: int_of_dbl_def j_def nat_diff_distrib)
  have "L * 2 ^ 72 < (m * 2 ^ j) * 2 ^ 72" "(m * 2 ^ j) * 2 ^ 72 < U * 2 ^ 72"
    using assms(2,3) by (simp_all add: t power_add mult.assoc)
  then have "L < m * 2 ^ j" "m * 2 ^ j < U" by simp_all
  then show ?thesis unfolding v by simp
next
  case False
  define k where "k = 72 - t"
  have t: "72 = k + t" "0 < k" using False by (simp_all add: k_def)
  have "nat (72 - int t) = k" using False by (simp add: k_def)
  then have v: "int_of_dbl (m, int t - 72) = m div 2 ^ k"
    using False assms(1) by (cases "m = 0") (simp_all add: int_of_dbl_def sgn_if)
  have p72: "(2::int) ^ 72 = 2 ^ k * 2 ^ t" by (subst t(1)) (simp add: power_add)
  have "(L * 2 ^ k) * 2 ^ t < m * 2 ^ t" "m * 2 ^ t < (U * 2 ^ k) * 2 ^ t"
    using assms(2,3) unfolding p72 by (simp_all add: mult.assoc)
  then have b: "L * 2 ^ k < m" "m < U * 2 ^ k" by simp_all
  have "L \<le> m div 2 ^ k"
  proof -
    have "L * 2 ^ k div 2 ^ k \<le> m div 2 ^ k" using b by (intro zdiv_mono1) simp_all
    then show ?thesis by simp
  qed
  moreover have "m div 2 ^ k < U"
  proof -
    have "0 \<le> m mod 2 ^ k" by simp
    then have "(m div 2 ^ k) * 2 ^ k \<le> m"
      using div_mult_mod_eq [of m "2 ^ k"] by linarith
    then have "(m div 2 ^ k) * 2 ^ k < U * 2 ^ k" using b by linarith
    then show ?thesis by simp
  qed
  ultimately show ?thesis unfolding v by simp
qed

lemma scaled_product_bounds:
  assumes C: "0 < C" and R: "0 < R" and CR: "C * R < 2 ^ 50"
  shows "C * R div 100 - 1 \<le>
           int_of_dbl (dbl_mult (dbl_of_int C) (dbl_divide (dbl_of_int R) (dbl_of_int 100))) \<and>
         int_of_dbl (dbl_mult (dbl_of_int C) (dbl_divide (dbl_of_int R) (dbl_of_int 100))) \<le>
           C * R div 100"
proof -
  let ?T = "int_of_dbl (dbl_mult (dbl_of_int C) (dbl_divide (dbl_of_int R) (dbl_of_int 100)))"
  have "C * 1 \<le> C * R" using C R by (intro mult_left_mono) simp_all
  then have C50: "C < 2 ^ 50" using CR by simp
  have "1 * R \<le> C * R" using C R by (intro mult_right_mono) simp_all
  then have R50: "R < 2 ^ 50" using CR by simp
  have dC: "dbl_of_int C = (C, 0)" using C C50 by (intro dbl_of_int_exact) simp_all
  have dR: "dbl_of_int R = (R, 0)" using R R50 by (intro dbl_of_int_exact) simp_all
  have dH: "dbl_of_int 100 = (100, 0)" by (intro dbl_of_int_exact) simp_all
  define A where "A = R * 2 ^ 71"
  define q where "q = A div 100"
  define r0 where "r0 = A mod 100"
  define m0 where "m0 = 2 * q + (if r0 = 0 then 0 else 1)"
  have A: "A = q * 100 + r0" unfolding q_def r0_def by (rule div_mult_mod_eq [symmetric])
  have r0: "0 \<le> r0" "r0 < 100" by (simp_all add: r0_def)
  have "2 ^ 71 * 1 \<le> (2 ^ 71 :: int) * R" using R by (intro mult_left_mono) simp_all
  then have Age: "2 ^ 71 \<le> A" by (simp add: A_def mult.commute)
  then have qpos: "0 < q" using A r0 by simp
  then have m0pos: "0 < m0" by (simp add: m0_def)
  have m0A: "\<bar>100 * m0 - 2 * A\<bar> \<le> 98"
  proof (cases "r0 = 0")
    case True
    then have "100 * m0 - 2 * A = 0" by (simp add: m0_def A)
    then show ?thesis by simp
  next
    case False
    then have "100 * m0 - 2 * A = 100 - 2 * r0" by (simp add: m0_def A)
    moreover have "1 \<le> r0" using False r0 by simp
    ultimately show ?thesis using r0 by simp
  qed
  have div: "dbl_divide (R, 0) (100, 0) = round53 m0 (- 72)"
    using R by (simp add: dbl_divide_def bitlen_100 Let_def m0_def q_def r0_def A_def)
  from round53_error [OF m0pos, of "- 72"]
  obtain md t1 where r1: "round53 m0 (- 72) = (md, - 72 + int t1)" and md: "0 \<le> md"
    and e1: "\<bar>md * 2 ^ t1 - m0\<bar> * 2 ^ 53 \<le> m0" by blast
  define a1 where "a1 = \<bar>md * 2 ^ t1 - m0\<bar>"
  have a1: "0 \<le> a1" "a1 * 2 ^ 53 \<le> m0" using e1 by (simp_all add: a1_def)
  have a1m: "a1 \<le> m0"
  proof -
    have "a1 * 1 \<le> a1 * 2 ^ 53" using a1 by (intro mult_left_mono) simp_all
    then show ?thesis using a1 by simp
  qed
  have mdpos: "0 < md"
  proof (rule ccontr)
    assume "\<not> 0 < md"
    then have "md = 0" using md by simp
    then have "a1 = m0" using m0pos by (simp add: a1_def)
    then have "m0 * 2 ^ 53 \<le> m0 * 1" using a1 by simp
    then show False using m0pos by simp
  qed
  define P where "P = C * md"
  have Ppos: "0 < P" using C mdpos by (simp add: P_def)
  have mul: "dbl_mult (C, 0) (md, - 72 + int t1) = round53 P (- 72 + int t1)"
    by (simp add: dbl_mult_def P_def)
  from round53_error [OF Ppos, of "- 72 + int t1"]
  obtain mp t2 where r2: "round53 P (- 72 + int t1) = (mp, - 72 + int t1 + int t2)"
    and mp: "0 \<le> mp" and e2: "\<bar>mp * 2 ^ t2 - P\<bar> * 2 ^ 53 \<le> P" by blast
  define a2 where "a2 = \<bar>mp * 2 ^ t2 - P\<bar>"
  have a2: "0 \<le> a2" "a2 * 2 ^ 53 \<le> P" using e2 by (simp_all add: a2_def)
  have "?T = int_of_dbl (mp, - 72 + int t1 + int t2)"
    by (simp only: dC dR dH div r1 mul r2)
  moreover have "- 72 + int t1 + int t2 = int (t1 + t2) - 72" by simp
  ultimately have sc: "?T = int_of_dbl (mp, int (t1 + t2) - 72)"
    by (simp only:)
  define W where "W = md * 2 ^ t1"
  define G where "G = 100 * (mp * 2 ^ (t1 + t2))"
  define E where "E = C * (2 * A)"
  have Wle: "W \<le> 2 * m0" using a1m by (simp add: W_def a1_def)
  have Wge: "0 \<le> W" using md by (simp add: W_def)
  have split: "G - E = 100 * 2 ^ t1 * (mp * 2 ^ t2 - P) + C * (100 * (W - m0)) + C * (100 * m0 - 2 * A)"
    by (simp add: G_def E_def P_def W_def power_add algebra_simps)
  have "\<bar>G - E\<bar> \<le> \<bar>100 * 2 ^ t1 * (mp * 2 ^ t2 - P)\<bar> + \<bar>C * (100 * (W - m0))\<bar>
      + \<bar>C * (100 * m0 - 2 * A)\<bar>"
    unfolding split by linarith
  also have "\<bar>100 * 2 ^ t1 * (mp * 2 ^ t2 - P)\<bar> = 100 * 2 ^ t1 * a2"
    by (simp add: a2_def abs_mult)
  also have "\<bar>C * (100 * (W - m0))\<bar> = 100 * C * a1"
  proof -
    have "\<bar>C * (100 * (W - m0))\<bar> = \<bar>C\<bar> * (\<bar>100\<bar> * \<bar>W - m0\<bar>)"
      by (simp only: abs_mult)
    then show ?thesis using C by (simp add: a1_def W_def)
  qed
  also have "\<bar>C * (100 * m0 - 2 * A)\<bar> = C * \<bar>100 * m0 - 2 * A\<bar>"
    using C by (simp add: abs_mult)
  finally have d1: "\<bar>G - E\<bar> \<le> 100 * 2 ^ t1 * a2 + 100 * C * a1 + C * \<bar>100 * m0 - 2 * A\<bar>" .
  have "C * \<bar>100 * m0 - 2 * A\<bar> \<le> C * 98"
    using C m0A by (intro mult_left_mono) simp_all
  then have d2: "\<bar>G - E\<bar> \<le> 100 * 2 ^ t1 * a2 + 100 * C * a1 + 98 * C"
    using d1 by linarith
  have t1: "100 * 2 ^ t1 * (a2 * 2 ^ 53) \<le> 100 * 2 ^ t1 * P"
    using a2 by (intro mult_left_mono) simp_all
  have t1': "100 * 2 ^ t1 * P = 100 * (C * W)" by (simp add: P_def W_def algebra_simps)
  have "C * W \<le> C * (2 * m0)" using C Wle by (intro mult_left_mono) simp_all
  then have t1'': "100 * (C * W) \<le> 200 * (C * m0)" by simp
  have t2: "100 * C * (a1 * 2 ^ 53) \<le> 100 * C * m0"
    using a1 C by (intro mult_left_mono) simp_all
  have "\<bar>G - E\<bar> * 2 ^ 53 \<le> (100 * 2 ^ t1 * a2 + 100 * C * a1 + 98 * C) * 2 ^ 53"
    using d2 by (intro mult_right_mono) simp_all
  also have "\<dots> = 100 * 2 ^ t1 * (a2 * 2 ^ 53) + 100 * C * (a1 * 2 ^ 53) + 98 * C * 2 ^ 53"
    by (simp add: algebra_simps)
  also have "\<dots> \<le> 200 * (C * m0) + 100 * C * m0 + 98 * C * 2 ^ 53"
    using t1 t1' t1'' t2 by linarith
  also have "\<dots> = 3 * (C * (100 * m0)) + 98 * C * 2 ^ 53" by simp
  finally have d3: "\<bar>G - E\<bar> * 2 ^ 53 \<le> 3 * (C * (100 * m0)) + 98 * C * 2 ^ 53" .
  have "100 * m0 \<le> 2 * A + 98" using m0A by linarith
  then have "C * (100 * m0) \<le> C * (2 * A + 98)" using C by (intro mult_left_mono) simp_all
  also have "\<dots> = (C * R) * 2 ^ 72 + 98 * C" by (simp add: A_def algebra_simps)
  finally have d4: "C * (100 * m0) \<le> (C * R) * 2 ^ 72 + 98 * C" .
  have "(C * R) * 2 ^ 72 \<le> 2 ^ 50 * (2 ^ 72 :: int)"
    using CR by (intro mult_right_mono) simp_all
  then have d5: "(C * R) * 2 ^ 72 \<le> 2 ^ 122" by simp
  have "98 * C * 2 ^ 53 \<le> 98 * 2 ^ 50 * (2 ^ 53 :: int)"
    using C50 by (intro mult_right_mono) simp_all
  then have d6: "98 * C * 2 ^ 53 \<le> 98 * 2 ^ 103" by simp
  have "\<bar>G - E\<bar> * 2 ^ 53 < 2 ^ 72 * 2 ^ 53"
    using d3 d4 d5 d6 C50 by simp
  then have err: "\<bar>G - E\<bar> < 2 ^ 72" by simp
  define N where "N = C * R div 100"
  define fr where "fr = C * R mod 100"
  have NE: "C * R = N * 100 + fr" unfolding N_def fr_def by (rule div_mult_mod_eq [symmetric])
  have fr: "0 \<le> fr" "fr \<le> 99" by (simp_all add: fr_def)
  have "E = (C * R) * 2 ^ 72" by (simp add: E_def A_def)
  then have E2: "E = (N * 100 + fr) * 2 ^ 72" by (simp only: NE)
  have "fr * 2 ^ 72 \<le> 99 * (2 ^ 72 :: int)" using fr by (intro mult_right_mono) simp_all
  moreover have "0 \<le> fr * (2 ^ 72 :: int)" using fr by simp
  ultimately have Eb: "100 * (N * 2 ^ 72) \<le> E" "E \<le> 100 * (N * 2 ^ 72) + 99 * 2 ^ 72"
    by (simp_all add: E2 algebra_simps)
  have "100 * ((N - 1) * 2 ^ 72) < G" "G < 100 * ((N + 1) * 2 ^ 72)"
    using err Eb by (simp_all add: algebra_simps)
  then have "(N - 1) * 2 ^ 72 < mp * 2 ^ (t1 + t2)" "mp * 2 ^ (t1 + t2) < (N + 1) * 2 ^ 72"
    by (simp_all add: G_def)
  from int_of_dbl_bounds [OF mp this]
  have "N - 1 \<le> ?T" "?T < N + 1" by (simp_all add: sc)
  then show ?thesis by (simp add: N_def)
qed

lemma div_100_le: "0 \<le> (a::int) \<Longrightarrow> 0 \<le> a div 100 \<and> a div 100 \<le> a"
proof -
  assume a: "0 \<le> a"
  have "a div 100 * 100 + a mod 100 = a" by (rule div_mult_mod_eq)
  moreover have "0 \<le> a mod 100" by simp
  moreover have "0 \<le> a div 100" using a by (simp add: pos_imp_zdiv_nonneg_iff)
  ultimately show ?thesis by linarith
qed

lemma scale_capacity_bounds:
  assumes C: "0 < C" and R: "0 < R" and CR: "C * R < 2 ^ 50"
  shows "\<exists>t. scale_capacity C R = Inr t \<and> C * R div 100 - 1 \<le> t \<and> t \<le> C * R div 100"
proof -
  let ?T = "int_of_dbl (dbl_mult (dbl_of_int C) (dbl_divide (dbl_of_int R) (dbl_of_int 100)))"
  have b: "C * R div 100 - 1 \<le> ?T" "?T \<le> C * R div 100"
    using scaled_product_bounds [OF assms] by simp_all
  have "0 \<le> C * R" using C R by simp
  then have "0 \<le> C * R div 100" "C * R div 100 \<le> C * R"
    using div_100_le by simp_all
  then have "integer_ok ?T" using b CR by (simp add: integer_ok_def)
  then show ?thesis using b by (simp add: scale_capacity_def integer_of_dbl_def)
qed

lemma grown_capacity_small:
  assumes C: "0 < capacity q" and R: "0 < growth_rate q"
    and CR: "capacity q * growth_rate q < 2 ^ 50"
  shows "\<exists>n. grown_capacity q = Inr n \<and> capacity q + 4 \<le> n \<and> n < 2 ^ 61"
proof -
  from scale_capacity_bounds [OF assms]
  obtain t where t: "scale_capacity (capacity q) (growth_rate q) = Inr t"
    and lo: "capacity q * growth_rate q div 100 - 1 \<le> t"
    and hi: "t \<le> capacity q * growth_rate q div 100"
    by blast
  have "capacity q * 1 \<le> capacity q * growth_rate q"
    using C R by (intro mult_left_mono) simp_all
  then have C50: "capacity q < 2 ^ 50" using CR by simp
  have "0 \<le> capacity q * growth_rate q" using C R by simp
  then have d: "0 \<le> capacity q * growth_rate q div 100"
    "capacity q * growth_rate q div 100 \<le> capacity q * growth_rate q"
    using div_100_le by simp_all
  have tb: "- 1 \<le> t" "t < 2 ^ 50" using lo hi d CR by simp_all
  have ok: "integer_ok (t - capacity q)" "integer_ok (capacity q + 4)"
    using tb C C50 by (simp_all add: integer_ok_def)
  show ?thesis
    using t ok tb C50 by (simp add: grown_capacity_def)
qed


section \<open>Runs: first in, first out\<close>

lemma qua_grow_locked: "locked q \<Longrightarrow> qua_grow ra q = Inr (False, q)"
  by (simp add: qua_grow_def)

lemma qua_grow_alloc_fails:
  "grown_capacity q = Inr n \<Longrightarrow> byte_count n \<noteq> 0 \<Longrightarrow> qua_grow AllocFails q = Inr (False, q)"
  by (simp add: qua_grow_def realloc_bytes_def Let_def)

lemma qua_grow_Inr:
  assumes "qua_grow ra q = Inr (ok, q')"
  shows "version_id q' = version_id q \<and> size_q q' = size_q q \<and>
         growth_rate q' = growth_rate q \<and> locked q' = locked q \<and>
         (capacity q' = capacity q \<or> grown_capacity q = Inr (capacity q')) \<and>
         (ok \<longrightarrow> grown_capacity q = Inr (capacity q') \<and> \<not> locked q \<and> ra \<noteq> AllocFails)"
proof (cases "locked q")
  case True
  then show ?thesis using assms by (auto simp: qua_grow_def)
next
  case ul: False
  obtain n where n: "grown_capacity q = Inr n"
    using assms ul by (cases "grown_capacity q") (simp_all add: qua_grow_def Let_def)
  show ?thesis
  proof (cases "realloc_bytes ra (buffer q) (byte_count n)")
    case (Inl e)
    then show ?thesis using assms ul n by (simp add: qua_grow_def Let_def)
  next
    case (Inr res)
    show ?thesis
    proof (cases res)
      case None
      then show ?thesis using assms ul n Inr by (auto simp: qua_grow_def Let_def)
    next
      case (Some new_buffer)
      then have ra: "ra \<noteq> AllocFails"
        using Inr by (auto simp: realloc_bytes_def split: if_splits)
      show ?thesis
        using assms ul n Inr Some ra
        by (auto simp: qua_grow_def Let_def split: if_splits sum.splits)
    qed
  qed
qed

lemma qua_grow_rejects:
  assumes inv: "qua_inv q" and full: "size_q q = capacity q"
    and g: "qua_grow ra q = Inr (False, q')"
  shows "q' = q"
proof (cases "locked q")
  case True
  then show ?thesis using g by (simp add: qua_grow_def)
next
  case ul: False
  have b: "0 < capacity q" "0 \<le> front q" "front q < capacity q" "rear q = front q"
    using inv full by (auto simp: qua_inv_def)
  obtain n where n: "grown_capacity q = Inr n"
    using g ul by (cases "grown_capacity q") (simp_all add: qua_grow_def Let_def)
  show ?thesis
  proof (cases "realloc_bytes ra (buffer q) (byte_count n)")
    case (Inl e)
    then show ?thesis using g ul n by (simp add: qua_grow_def Let_def)
  next
    case (Inr res)
    show ?thesis
    proof (cases res)
      case None
      then show ?thesis using g ul n Inr by (auto simp: qua_grow_def Let_def)
    next
      case (Some new_buffer)
      show ?thesis
      proof (cases "front q = 0")
        case True
        then show ?thesis
          using g ul n Inr Some b by (simp add: qua_grow_def Let_def)
      next
        case False
        then have "front q - 1 < front q" "rear q \<noteq> 0" using b by simp_all
        then show ?thesis
          using g ul n Inr Some b
          by (auto simp: qua_grow_def Let_def split: if_splits sum.splits)
      qed
    qed
  qed
qed

lemma qua_enqueue_after_grow:
  assumes "size_q q = capacity q" and "qua_grow ra q = Inr (True, q1)"
    and "size_q q1 \<noteq> capacity q1"
  shows "qua_enqueue ra q x = qua_enqueue ra' q1 x"
  using assms by (simp add: qua_enqueue_def qua_full_def)

lemma qua_enqueue_capacity:
  assumes "qua_enqueue ra q x = Inr (ok, q1)"
  shows "capacity q \<le> capacity q1 \<and> growth_rate q1 = growth_rate q"
proof (cases "qua_full q")
  case False
  then show ?thesis
    using assms by (auto simp: qua_enqueue_def Let_def split: if_splits)
next
  case True
  then obtain grown q2 where g: "qua_grow ra q = Inr (grown, q2)"
    using assms by (cases "qua_grow ra q") (auto simp: qua_enqueue_def)
  have c: "capacity q1 = capacity q2" "growth_rate q1 = growth_rate q2"
    using assms True g by (auto simp: qua_enqueue_def Let_def split: if_splits)
  have "capacity q \<le> capacity q2" "growth_rate q2 = growth_rate q"
    using qua_grow_Inr [OF g] grown_capacity_ge [of q "capacity q2"] by auto
  then show ?thesis using c by simp
qed

lemma qua_dequeue_capacity:
  "qua_dequeue q = (ok, y, q1) \<Longrightarrow> capacity q1 = capacity q \<and> growth_rate q1 = growth_rate q"
  by (auto simp: qua_dequeue_def Let_def split: if_splits)

lemma run_ops_capacity:
  "run_ops q ops = Inr (rs, q') \<Longrightarrow> capacity q \<le> capacity q' \<and> growth_rate q' = growth_rate q"
proof (induction ops arbitrary: q rs)
  case Nil
  then show ?case by simp
next
  case (Cons op ops)
  show ?case
  proof (cases op)
    case (Enqueue ra x)
    obtain ok q1 where e: "qua_enqueue ra q x = Inr (ok, q1)"
      using Cons.prems Enqueue by (cases "qua_enqueue ra q x") auto
    obtain rs1 where r1: "run_ops q1 ops = Inr (rs1, q')"
      using Cons.prems Enqueue e by (cases "run_ops q1 ops") auto
    from Cons.IH [OF r1] qua_enqueue_capacity [OF e] show ?thesis by simp
  next
    case Dequeue
    obtain ok y q1 where d: "qua_dequeue q = (ok, y, q1)" by (cases "qua_dequeue q")
    obtain rs1 where r1: "run_ops q1 ops = Inr (rs1, q')"
      using Cons.prems Dequeue d by (cases "run_ops q1 ops") auto
    from Cons.IH [OF r1] qua_dequeue_capacity [OF d] show ?thesis by simp
  qed
qed

lemma qua_enqueue_cases:
  assumes inv: "qua_inv q" and e: "qua_enqueue ra q x = Inr (ok, q1)"
    and fits: "capacity q1 < 2 ^ 61"
  obtains (stored) "ok" and "qua_inv q1"
      and "logical_seq q1 = logical_seq q @ [x]" and "size_q q1 = size_q q + 1"
      and "version_id q1 = version_id q + 1"
    | (rejected) "\<not> ok" and "q1 = q" and "size_q q = capacity q"
proof (cases "size_q q = capacity q")
  case False
  from qua_enqueue_room [OF inv False, of ra x] show ?thesis
    using stored e by (metis Pair_inject sum.inject(2))
next
  case full: True
  obtain grown q2 where g: "qua_grow ra q = Inr (grown, q2)"
    using e full by (cases "qua_grow ra q") (auto simp: qua_enqueue_def qua_full_def)
  show ?thesis
  proof (cases grown)
    case False
    then have "qua_enqueue ra q x = Inr (False, q2)"
      using g full by (simp add: qua_enqueue_def qua_full_def)
    moreover have "q2 = q" using qua_grow_rejects [OF inv full] g False by simp
    ultimately show ?thesis using rejected e full by simp
  next
    case True
    then have gc: "grown_capacity q = Inr (capacity q2)" and ul: "\<not> locked q"
      and ra: "ra \<noteq> AllocFails"
      using qua_grow_Inr [OF g] by simp_all
    obtain junk where junk: "ra = AllocOk junk" using ra by (cases ra) auto
    have "capacity q1 = capacity q2"
      using e g full True by (auto simp: qua_enqueue_def qua_full_def Let_def split: if_splits)
    then have f2: "capacity q2 < 2 ^ 61" using fits by simp
    from qua_grow_full [OF inv full ul gc f2, of junk]
    obtain q3 where g3: "qua_grow (AllocOk junk) q = Inr (True, q3)" and i3: "qua_inv q3"
      and s3: "logical_seq q3 = logical_seq q" and n3: "size_q q3 = size_q q"
      and c3: "capacity q3 = capacity q2" and v3: "version_id q3 = version_id q"
      by metis
    have room: "size_q q3 \<noteq> capacity q3"
      using n3 c3 full grown_capacity_ge [OF gc] by simp
    from qua_enqueue_room [OF i3 room, of ra x]
    obtain q' where e': "qua_enqueue ra q3 x = Inr (True, q')" and i': "qua_inv q'"
      and s': "logical_seq q' = logical_seq q3 @ [x]" and n': "size_q q' = size_q q3 + 1"
      and v': "version_id q' = version_id q3 + 1"
      by metis
    have "qua_enqueue ra q x = Inr (True, q')"
      using qua_enqueue_after_grow [OF full g3 [folded junk] room, of x ra] e' by simp
    then have "ok" "q1 = q'" using e by simp_all
    then show ?thesis using stored i' s' s3 n' n3 v' v3 by simp
  qed
qed

lemma run_ops_fifo:
  "qua_inv q \<Longrightarrow> run_ops q ops = Inr (rs, q') \<Longrightarrow> capacity q' < 2 ^ 61 \<Longrightarrow>
   fifo_trace (logical_seq q) rs \<and> qua_inv q' \<and>
   size_q q' + int (deq_count rs) = size_q q + int (enq_count rs)"
proof (induction ops arbitrary: q rs)
  case Nil
  then show ?case by simp
next
  case (Cons op ops)
  show ?case
  proof (cases op)
    case (Enqueue ra x)
    obtain ok q1 where e: "qua_enqueue ra q x = Inr (ok, q1)"
      using Cons.prems(2) Enqueue by (cases "qua_enqueue ra q x") auto
    obtain rs1 where r1: "run_ops q1 ops = Inr (rs1, q')" and rs: "rs = Enqueued ok x # rs1"
      using Cons.prems(2) Enqueue e by (cases "run_ops q1 ops") auto
    have f1: "capacity q1 < 2 ^ 61"
      using run_ops_capacity [OF r1] Cons.prems(3) by simp
    from Cons.prems(1) e f1 show ?thesis
    proof (cases rule: qua_enqueue_cases)
      case stored
      from Cons.IH [OF stored(2) r1 Cons.prems(3)] show ?thesis
        using rs stored by simp
    next
      case rejected
      from Cons.IH [OF Cons.prems(1) r1 [unfolded rejected(2)] Cons.prems(3)] show ?thesis
        using rs rejected by simp
    qed
  next
    case Dequeue
    show ?thesis
    proof (cases "size_q q = 0")
      case True
      then have d: "qua_dequeue q = (False, NULL, q)" by (rule qua_dequeue_empty)
      obtain rs1 where r1: "run_ops q ops = Inr (rs1, q')"
        and rs: "rs = Dequeued False NULL # rs1"
        using Cons.prems(2) Dequeue d by (cases "run_ops q ops") auto
      from Cons.IH [OF Cons.prems(1) r1 Cons.prems(3)] show ?thesis using rs by simp
    next
      case False
      from qua_dequeue_step [OF Cons.prems(1) False]
      obtain q1 where d: "qua_dequeue q = (True, hd (logical_seq q), q1)" and i: "qua_inv q1"
        and s: "logical_seq q1 = tl (logical_seq q)" and n: "size_q q1 = size_q q - 1"
        by metis
      obtain rs1 where r1: "run_ops q1 ops = Inr (rs1, q')"
        and rs: "rs = Dequeued True (hd (logical_seq q)) # rs1"
        using Cons.prems(2) Dequeue d by (cases "run_ops q1 ops") auto
      have ne: "logical_seq q \<noteq> []"
        using False Cons.prems(1) by (auto simp: qua_inv_def simp flip: length_0_conv)
      from Cons.IH [OF i r1 Cons.prems(3)] show ?thesis using rs s n ne by simp
    qed
  qed
qed

lemma qua_enqueue_total:
  assumes inv: "qua_inv q" and R: "0 < growth_rate q"
    and small: "size_q q * growth_rate q < 2 ^ 50" and fits: "capacity q < 2 ^ 61"
  obtains ok q1 where "qua_enqueue ra q x = Inr (ok, q1)" and "qua_inv q1"
    and "capacity q1 < 2 ^ 61" and "size_q q1 \<le> size_q q + 1"
proof (cases "size_q q = capacity q")
  case False
  from qua_enqueue_room [OF inv False, of ra x]
  obtain q' where e': "qua_enqueue ra q x = Inr (True, q')" and i': "qua_inv q'"
    and n': "size_q q' = size_q q + 1" and c': "capacity q' = capacity q"
    by metis
  show ?thesis by (rule that [OF e' i']) (use n' c' fits in simp_all)
next
  case full: True
  have C: "0 < capacity q" using inv by (simp add: qua_inv_def)
  from grown_capacity_small [OF C R small [unfolded full]]
  obtain n where gc: "grown_capacity q = Inr n" and ge: "capacity q + 4 \<le> n"
    and n: "n < 2 ^ 61"
    by blast
  have bytes: "byte_count n \<noteq> 0" using C ge n by (simp add: byte_count_fits)
  show ?thesis
  proof (cases "locked q \<or> ra = AllocFails")
    case True
    then have "qua_grow ra q = Inr (False, q)"
      using qua_grow_locked qua_grow_alloc_fails [OF gc bytes] by auto
    then have e': "qua_enqueue ra q x = Inr (False, q)"
      using full by (simp add: qua_enqueue_def qua_full_def)
    show ?thesis by (rule that [OF e' inv fits]) simp
  next
    case False
    then obtain junk where junk: "ra = AllocOk junk" and ul: "\<not> locked q"
      by (cases ra) auto
    from qua_grow_full [OF inv full ul gc n, of junk]
    obtain q3 where g3: "qua_grow (AllocOk junk) q = Inr (True, q3)" and i3: "qua_inv q3"
      and n3: "size_q q3 = size_q q" and c3: "capacity q3 = n"
      by metis
    have room: "size_q q3 \<noteq> capacity q3" using n3 c3 full ge by simp
    from qua_enqueue_room [OF i3 room, of ra x]
    obtain q' where e': "qua_enqueue ra q3 x = Inr (True, q')" and i': "qua_inv q'"
      and n': "size_q q' = size_q q3 + 1" and c': "capacity q' = capacity q3"
      by metis
    have e: "qua_enqueue ra q x = Inr (True, q')"
      using qua_enqueue_after_grow [OF full g3 [folded junk] room, of x ra] e' by simp
    show ?thesis by (rule that [OF e i']) (use n' n3 c' c3 n in simp_all)
  qed
qed

lemma run_ops_total:
  "qua_inv q \<Longrightarrow> 0 < growth_rate q \<Longrightarrow> capacity q < 2 ^ 61 \<Longrightarrow>
   (size_q q + int (length ops)) * growth_rate q < 2 ^ 50 \<Longrightarrow>
   \<exists>rs q'. run_ops q ops = Inr (rs, q') \<and> capacity q' < 2 ^ 61"
proof (induction ops arbitrary: q)
  case Nil
  then show ?case by simp
next
  case (Cons op ops)
  have n0: "0 \<le> size_q q" using Cons.prems(1) by (simp add: qua_inv_def)
  have R: "0 < growth_rate q" by (rule Cons.prems(2))
  have step: "(s + int (length ops)) * growth_rate q < 2 ^ 50"
    if "s \<le> size_q q + 1" for s
  proof -
    have "s + int (length ops) \<le> size_q q + int (length (op # ops))" using that by simp
    then have "(s + int (length ops)) * growth_rate q \<le>
        (size_q q + int (length (op # ops))) * growth_rate q"
      using R by (intro mult_right_mono) simp_all
    then show ?thesis using Cons.prems(4) by linarith
  qed
  show ?case
  proof (cases op)
    case (Enqueue ra x)
    have "size_q q * growth_rate q \<le> (size_q q + int (length (op # ops))) * growth_rate q"
      using R by (intro mult_right_mono) simp_all
    then have small: "size_q q * growth_rate q < 2 ^ 50" using Cons.prems(4) by linarith
    from qua_enqueue_total [OF Cons.prems(1) R small Cons.prems(3), of ra x]
    obtain ok q1 where e: "qua_enqueue ra q x = Inr (ok, q1)" and i1: "qua_inv q1"
      and c1: "capacity q1 < 2 ^ 61" and n1: "size_q q1 \<le> size_q q + 1"
      by metis
    have r1: "growth_rate q1 = growth_rate q" using qua_enqueue_capacity [OF e] by simp
    from Cons.IH [OF i1 _ c1] step [OF n1] R r1
    obtain rs1 q' where "run_ops q1 ops = Inr (rs1, q')" and "capacity q' < 2 ^ 61"
      by auto
    then show ?thesis using Enqueue e by simp
  next
    case Dequeue
    show ?thesis
    proof (cases "size_q q = 0")
      case True
      then have d: "qua_dequeue q = (False, NULL, q)" by (rule qua_dequeue_empty)
      from Cons.IH [OF Cons.prems(1) R Cons.prems(3)] step [of "size_q q"]
      obtain rs1 q' where "run_ops q ops = Inr (rs1, q')" and "capacity q' < 2 ^ 61"
        by auto
      then show ?thesis using Dequeue d by simp
    next
      case False
      from qua_dequeue_step [OF Cons.prems(1) False]
      obtain q1 where d: "qua_dequeue q = (True, hd (logical_seq q), q1)" and i1: "qua_inv q1"
        and n1: "size_q q1 = size_q q - 1" and c1: "capacity q1 = capacity q"
        by metis
      have r1: "growth_rate q1 = growth_rate q" using qua_dequeue_capacity [OF d] by simp
      from Cons.IH [OF i1 _ _] step [of "size_q q1"] R r1 n1 c1 Cons.prems(3)
      obtain rs1 q' where "run_ops q1 ops = Inr (rs1, q')" and "capacity q' < 2 ^ 61"
        by auto
      then show ?thesis using Dequeue d by simp
    qed
  qed
qed

lemma dequeue_n_logical_seq:
  "qua_inv q \<Longrightarrow> n \<le> nat (size_q q) \<Longrightarrow>
   dequeue_n n q = map (\<lambda>y. (True, y)) (take n (logical_seq q))"
proof (induction n arbitrary: q)
  case 0
  then show ?case by simp
next
  case (Suc n)
  then have ne: "size_q q \<noteq> 0" by auto
  from qua_dequeue_step [OF Suc.prems(1) ne]
  obtain q1 where d: "qua_dequeue q = (True, hd (logical_seq q), q1)" and i: "qua_inv q1"
    and s: "logical_seq q1 = tl (logical_seq q)" and n: "size_q q1 = size_q q - 1"
    by metis
  have "n \<le> nat (size_q q1)" using Suc.prems(2) n by simp
  from Suc.IH [OF i this] have "dequeue_n n q1 = map (Pair True) (take n (tl (logical_seq q)))"
    using s by simp
  moreover have "logical_seq q \<noteq> []"
    using ne Suc.prems(1) by (auto simp: qua_inv_def simp flip: length_0_conv)
  ultimately show ?case using d by (cases "logical_seq q") simp_all
qed

section \<open>Erasing\<close>

lemma qua_erase_spec:
  assumes inv: "qua_inv q"
  obtains buf where "qua_erase q = (True, q\<lparr>buffer := buf\<rparr>, logical_seq q)"
    and "length buf = length (buffer q)"
    and "logical_seq (q\<lparr>buffer := buf\<rparr>) = replicate (nat (size_q q)) NULL"
proof -
  let ?f = "front q" and ?c = "capacity q" and ?n = "size_q q"
  define res where "res = erase_loop ?n ?c ?f 0 (buffer q) []"
  define buf where "buf = fst res"
  have b: "0 < ?c" "length (buffer q) = nat ?c" "0 \<le> ?f" "?f < ?c" "0 \<le> ?n" "?n \<le> ?c"
    using inv by (auto simp: qua_inv_def)
  have freed: "snd res = logical_seq q"
    unfolding res_def using b by (subst erase_loop_freed) (simp_all add: logical_seq_def)
  have e: "qua_erase q = (True, q\<lparr>buffer := buf\<rparr>, logical_seq q)"
    using freed by (simp add: qua_erase_def buf_def res_def split_beta)
  have len: "length buf = length (buffer q)"
    by (simp add: buf_def res_def erase_loop_length)
  have "logical_seq (q\<lparr>buffer := buf\<rparr>) ! j = NULL" if "j < nat ?n" for j
  proof -
    define k where "k = nat ((?f + int j) mod ?c)"
    have k: "int k = (?f + int j) mod ?c" "k < nat ?c"
      using b by (simp_all add: k_def nat_less_iff)
    have "(int k - ?f) mod ?c = int j mod ?c"
      unfolding k by (simp add: mod_diff_left_eq)
    also have "\<dots> = int j" using that b by simp
    finally have "(int k - ?f) mod ?c < ?n - 0" using that by simp
    then have "buf ! k = NULL"
      unfolding buf_def res_def using b k by (subst erase_loop_nth) simp_all
    then show ?thesis using that by (simp add: logical_seq_nth k_def)
  qed
  then have s: "logical_seq (q\<lparr>buffer := buf\<rparr>) = replicate (nat ?n) NULL"
    by (intro nth_equalityI) simp_all
  show ?thesis by (rule that [OF e len s])
qed

lemma qua_inv_buffer: "qua_inv q \<Longrightarrow> length buf = length (buffer q) \<Longrightarrow> qua_inv (q\<lparr>buffer := buf\<rparr>)"
  by (simp add: qua_inv_def)

section \<open>Fields that the operations leave alone\<close>

lemma qua_grow_capacity_eq:
  assumes "qua_grow ra q = Inr (True, q')"
  shows "\<exists>t. scale_capacity (capacity q) (growth_rate q) = Inr t \<and>
           capacity q' = (if t - capacity q < 4 then capacity q + 4 else t)"
proof -
  have "grown_capacity q = Inr (capacity q')" using qua_grow_Inr [OF assms] by simp
  then show ?thesis
    by (cases "scale_capacity (capacity q) (growth_rate q)")
      (auto simp: grown_capacity_def split: if_splits)
qed

lemma qua_enqueue_version:
  assumes "qua_enqueue ra q x = Inr (ok, q1)"
  shows "version_id q1 = (if ok then version_id q + 1 else version_id q)"
proof (cases "qua_full q")
  case False
  then show ?thesis
    using assms by (auto simp: qua_enqueue_def Let_def split: if_splits)
next
  case True
  then obtain grown q2 where g: "qua_grow ra q = Inr (grown, q2)"
    using assms by (cases "qua_grow ra q") (auto simp: qua_enqueue_def)
  then have "version_id q2 = version_id q" using qua_grow_Inr [OF g] by simp
  then show ?thesis
    using assms True g by (auto simp: qua_enqueue_def Let_def split: if_splits)
qed

lemma qua_dequeue_version:
  "version_id (snd (snd (qua_dequeue q))) =
     (if fst (qua_dequeue q) then version_id q + 1 else version_id q)"
  by (simp add: qua_dequeue_def Let_def)

lemma qua_erase_version: "version_id (fst (snd (qua_erase q))) = version_id q"
  by (simp add: qua_erase_def split_beta)

section \<open>RedBlackTree: the invariants are preserved\<close>

subsection \<open>Black counts and black height\<close>

lemma black_height_in_counts: "black_height t \<in> set (black_counts t)"
  by (induction t) auto

lemma balanced_counts: "balanced t \<longleftrightarrow> set (black_counts t) = {black_height t}"
proof (induction t)
  case Null
  show ?case by simp
next
  case (Node c l k r)
  let ?d = "if c = Black then 1 else 0 :: nat"
  have img: "set (black_counts (Node c l k r)) =
      (\<lambda>n. n + ?d) ` (set (black_counts l) \<union> set (black_counts r))"
    by (simp add: image_Un)
  show ?case
  proof
    assume "balanced (Node c l k r)"
    then have "set (black_counts l) = {black_height l}" "set (black_counts r) = {black_height l}"
      using Node.IH by simp_all
    then show "set (black_counts (Node c l k r)) = {black_height (Node c l k r)}"
      unfolding img by simp
  next
    assume a: "set (black_counts (Node c l k r)) = {black_height (Node c l k r)}"
    have "n = black_height l" if "n \<in> set (black_counts l) \<union> set (black_counts r)" for n
    proof -
      have "n + ?d \<in> set (black_counts (Node c l k r))" unfolding img using that by blast
      then show ?thesis unfolding a by simp
    qed
    then have l: "set (black_counts l) \<subseteq> {black_height l}"
      and r: "set (black_counts r) \<subseteq> {black_height l}" by auto
    have "black_height r = black_height l"
      using r black_height_in_counts [of r] by auto
    moreover have "set (black_counts l) = {black_height l}"
      using l black_height_in_counts [of l] by auto
    moreover have "set (black_counts r) = {black_height l}"
      using r black_height_in_counts [of r] by auto
    ultimately show "balanced (Node c l k r)" using Node.IH by simp
  qed
qed



lemma black_counts_nonempty: "black_counts t \<noteq> []"
  by (induction t) simp_all

lemma hd_black_counts: "balanced t \<Longrightarrow> hd (black_counts t) = black_height t"
proof -
  assume "balanced t"
  then have s: "set (black_counts t) = {black_height t}" by (simp only: balanced_counts)
  have "hd (black_counts t) \<in> set (black_counts t)"
    using black_counts_nonempty by (rule hd_in_set)
  then show ?thesis unfolding s by simp
qed

lemma uniform_counts_balanced:
  "list_all (\<lambda>n. n = hd (black_counts t)) (black_counts t) \<longleftrightarrow> balanced t"
proof
  assume b: "balanced t"
  then have s: "set (black_counts t) = {black_height t}" by (simp only: balanced_counts)
  show "list_all (\<lambda>n. n = hd (black_counts t)) (black_counts t)"
    unfolding list_all_iff s hd_black_counts [OF b] by simp
next
  assume a: "list_all (\<lambda>n. n = hd (black_counts t)) (black_counts t)"
  then have all: "\<forall>n \<in> set (black_counts t). n = hd (black_counts t)"
    by (simp only: list_all_iff)
  then have h: "black_height t = hd (black_counts t)"
    using black_height_in_counts [of t] by blast
  have "set (black_counts t) = {black_height t}"
  proof
    show "set (black_counts t) \<subseteq> {black_height t}" using all h by auto
    show "{black_height t} \<subseteq> set (black_counts t)"
      using black_height_in_counts [of t] by simp
  qed
  then show "balanced t" by (simp only: balanced_counts)
qed

lemma rbt_inv_iff: "rbt_inv t \<longleftrightarrow> color_of t = Black \<and> no_red_red t \<and> balanced t"
  by (simp only: rbt_inv_def uniform_counts_balanced)

lemma color_cases [simp]: "(c \<noteq> Black) = (c = Red)" "(c \<noteq> Red) = (c = Black)"
  by (cases c; simp)+

lemma color_of_paint_Black [simp]: "color_of (paint Black t) = Black"
  by (cases t) simp_all

lemma balanced_paint [simp]: "balanced (paint c t) = balanced t"
  by (cases t) simp_all

lemma black_height_paint_Black:
  "color_of t = Red \<Longrightarrow> black_height (paint Black t) = black_height t + 1"
  by (cases t) simp_all

lemma black_height_paint_same:
  "color_of t = c \<Longrightarrow> paint c t = t"
  by (cases t) simp_all

lemma no_red_red_paint_Black: "no_red_red t \<Longrightarrow> no_red_red (paint Black t)"
  by (cases t) simp_all

lemma no_red_red_paint_Black_iff:
  "color_of t = Black \<Longrightarrow> no_red_red (paint Black t) = no_red_red t"
  by (cases t) simp_all

subsection \<open>Replacing the subtree under a path\<close>

lemma rebuild_append: "rebuild t (ps @ qs) = rebuild (rebuild t ps) qs"
  by (induction ps arbitrary: t) simp_all

lemma balanced_rebuildD: "balanced (rebuild t fs) \<Longrightarrow> balanced t"
proof (induction fs arbitrary: t)
  case Nil
  then show ?case by simp
next
  case (Cons f fs)
  then have "balanced (plug t f)" by simp
  then show ?case by (cases f) simp_all
qed

lemma no_red_red_rebuildD: "no_red_red (rebuild t fs) \<Longrightarrow> no_red_red t"
proof (induction fs arbitrary: t)
  case Nil
  then show ?case by simp
next
  case (Cons f fs)
  then have "no_red_red (plug t f)" by simp
  then show ?case by (cases f) simp_all
qed

lemma black_height_plug:
  "balanced (plug u f) \<Longrightarrow>
   black_height (plug u f) = black_height u + (if frame_color f = Black then 1 else 0)"
  by (cases f) simp_all

lemma balanced_plug:
  "balanced (plug u f) \<Longrightarrow> balanced t \<Longrightarrow> black_height t = black_height u \<Longrightarrow>
   balanced (plug t f) \<and> black_height (plug t f) = black_height (plug u f)"
  by (cases f) simp_all

lemma balanced_rebuild:
  "balanced (rebuild u fs) \<Longrightarrow> balanced t \<Longrightarrow> black_height t = black_height u \<Longrightarrow>
   balanced (rebuild t fs)"
proof (induction fs arbitrary: t u)
  case Nil
  then show ?case by simp
next
  case (Cons f fs)
  have "balanced (plug u f)" using Cons.prems(1) balanced_rebuildD [of "plug u f" fs] by simp
  then have "balanced (plug t f) \<and> black_height (plug t f) = black_height (plug u f)"
    using Cons.prems(2,3) by (rule balanced_plug)
  then show ?case using Cons.IH [of "plug u f" "plug t f"] Cons.prems(1) by simp
qed

lemma no_red_red_plug:
  "no_red_red (plug u f) \<Longrightarrow> no_red_red t \<Longrightarrow> color_of t = Black \<or> color_of u = Red \<Longrightarrow>
   no_red_red (plug t f)"
  by (cases f) auto

lemma color_of_plug [simp]: "color_of (plug t f) = frame_color f"
  by (cases f) simp_all

lemma no_red_red_rebuild:
  "no_red_red (rebuild u fs) \<Longrightarrow> no_red_red t \<Longrightarrow> color_of t = Black \<or> color_of u = Red \<Longrightarrow>
   no_red_red (rebuild t fs)"
proof (induction fs arbitrary: t u)
  case Nil
  then show ?case by simp
next
  case (Cons f fs)
  have "no_red_red (plug u f)"
    using Cons.prems(1) no_red_red_rebuildD [of "plug u f" fs] by simp
  then have "no_red_red (plug t f)" using Cons.prems(2,3) by (rule no_red_red_plug)
  moreover have "color_of (plug t f) = Black \<or> color_of (plug u f) = Red"
    by (cases "frame_color f") simp_all
  ultimately show ?case using Cons.IH [of "plug u f" "plug t f"] Cons.prems(1) by simp
qed

lemma root_color_rebuild:
  "color_of t = color_of u \<Longrightarrow> color_of (rebuild t fs) = color_of (rebuild u fs)"
  by (induction fs arbitrary: t u) simp_all

lemma root_color_rebuild_Cons:
  "color_of (rebuild t (f # fs)) = color_of (rebuild u (f # fs))"
  by (simp add: root_color_rebuild)

subsection \<open>Insertion\<close>

lemma descend_rebuild:
  "descend compare new t path = Some path' \<Longrightarrow> rebuild Null path' = rebuild t path"
  by (induction compare new t path rule: descend.induct) (auto split: if_splits)

lemma red_is_Node: "color_of t = Red \<Longrightarrow> \<exists>l k r. t = Node Red l k r"
  by (cases t) simp_all

lemma insert_fixup_inv:
  assumes "color_of t = Red" and "no_red_red t" and "balanced t"
    and "balanced (rebuild u fs)" and "no_red_red (rebuild u fs)"
    and "black_height u = black_height t"
  shows "balanced (insert_fixup t fs) \<and> no_red_red (paint Black (insert_fixup t fs))"
  using assms
proof (induction t fs arbitrary: u rule: insert_fixup.induct)
  case (1 t)
  then show ?case by (simp add: no_red_red_paint_Black)
next
  case (2 t f)
  have "balanced (plug t f)"
    using balanced_rebuild [of u "[f]" t] "2.prems" by simp
  moreover have "no_red_red (paint Black (plug t f))"
    using "2.prems" by (cases f) simp_all
  ultimately show ?case by simp
next
  case (3 t f g fs)
  define U where "U = plug (plug u f) g"
  have U: "balanced U" "no_red_red U"
    using "3.prems" balanced_rebuildD [of U fs] no_red_red_rebuildD [of U fs]
    by (simp_all add: U_def)
  have ctx: "balanced (rebuild U fs)" "no_red_red (rebuild U fs)"
    using "3.prems" by (simp_all add: U_def)
  obtain tl tk tr where t: "t = Node Red tl tk tr"
    using red_is_Node [OF "3.prems"(1)] by blast
  show ?case
  proof (cases "frame_color f")
    case Black
    have bu: "balanced (plug u f)" using U by (cases g) (simp_all add: U_def)
    have nu: "no_red_red (plug u f)" using U by (cases g) (simp_all add: U_def)
    have "balanced (plug t f)" using balanced_plug [OF bu] "3.prems" by simp
    moreover have "black_height (plug t f) = black_height (plug u f)"
      using balanced_plug [OF bu] "3.prems" by simp
    ultimately have b: "balanced (rebuild (plug t f) (g # fs))"
      using balanced_rebuild [of "plug u f" "g # fs" "plug t f"] "3.prems" by simp
    have "no_red_red (plug t f)" using nu "3.prems" Black by (cases f) simp_all
    then have "no_red_red (rebuild (plug t f) (g # fs))"
      using no_red_red_rebuild [of "plug u f" "g # fs" "plug t f"] "3.prems" Black by simp
    then show ?thesis using b Black by (simp add: no_red_red_paint_Black)
  next
    case Red
    show ?thesis
    proof (cases g)
      case (LeftChildOf gc gk uncle)
      have facts: "gc = Black" "black_height (plug u f) = black_height uncle"
        "balanced (plug u f)" "balanced uncle" "no_red_red (plug u f)" "no_red_red uncle"
        using U Red by (simp_all add: U_def LeftChildOf)
      show ?thesis
      proof (cases "color_of uncle")
        case ur: Red
        let ?t2 = "Node Red (paint Black (plug t f)) gk (paint Black uncle)"
        have eq: "insert_fixup t (f # g # fs) = insert_fixup ?t2 fs"
          using Red ur LeftChildOf by simp
        have "no_red_red ?t2 \<and> balanced ?t2 \<and> black_height U = black_height ?t2"
          using facts ur Red "3.prems" t
          by (cases f) (simp_all add: U_def LeftChildOf black_height_paint_Black no_red_red_paint_Black)
        then have pre: "no_red_red ?t2" "balanced ?t2" "black_height U = black_height ?t2"
          by simp_all
        have "balanced (insert_fixup ?t2 fs) \<and> no_red_red (paint Black (insert_fixup ?t2 fs))"
          using Red LeftChildOf ur pre ctx by (intro "3.IH"(1) [of _ _ _ U]) simp_all
        then show ?thesis unfolding eq .
      next
        case ub: Black
        define X where "X = rotate_right (Node Red (paint Black
            (case f of RightChildOf pc a pk \<Rightarrow> rotate_left (plug t f)
                     | LeftChildOf pc pk c \<Rightarrow> plug t f)) gk uncle)"
        have eq: "insert_fixup t (f # g # fs) = rebuild X fs"
          using Red ub LeftChildOf by (simp add: X_def)
        have "balanced X \<and> black_height X = black_height U \<and> no_red_red X \<and> color_of X = Black"
          using facts ub Red "3.prems" t
          by (cases f) (simp_all add: X_def U_def LeftChildOf)
        then have X: "balanced X" "black_height X = black_height U" "no_red_red X"
          "color_of X = Black"
          by simp_all
        have "balanced (rebuild X fs)"
          using balanced_rebuild [of U fs X] ctx X by simp
        moreover have "no_red_red (rebuild X fs)"
          using no_red_red_rebuild [of U fs X] ctx X by simp
        ultimately show ?thesis unfolding eq by (simp add: no_red_red_paint_Black)
      qed
    next
      case (RightChildOf gc uncle gk)
      have facts: "gc = Black" "black_height uncle = black_height (plug u f)"
        "balanced (plug u f)" "balanced uncle" "no_red_red (plug u f)" "no_red_red uncle"
        using U Red by (simp_all add: U_def RightChildOf)
      show ?thesis
      proof (cases "color_of uncle")
        case ur: Red
        let ?t2 = "Node Red (paint Black uncle) gk (paint Black (plug t f))"
        have eq: "insert_fixup t (f # g # fs) = insert_fixup ?t2 fs"
          using Red ur RightChildOf by simp
        have "no_red_red ?t2 \<and> balanced ?t2 \<and> black_height U = black_height ?t2"
          using facts ur Red "3.prems" t
          by (cases f) (simp_all add: U_def RightChildOf black_height_paint_Black no_red_red_paint_Black)
        then have pre: "no_red_red ?t2" "balanced ?t2" "black_height U = black_height ?t2"
          by simp_all
        have "balanced (insert_fixup ?t2 fs) \<and> no_red_red (paint Black (insert_fixup ?t2 fs))"
          using Red RightChildOf ur pre ctx by (intro "3.IH"(2) [of _ _ _ U]) simp_all
        then show ?thesis unfolding eq .
      next
        case ub: Black
        define X where "X = rotate_left (Node Red uncle gk (paint Black
            (case f of LeftChildOf pc pk c \<Rightarrow> rotate_right (plug t f)
                     | RightChildOf pc a pk \<Rightarrow> plug t f)))"
        have eq: "insert_fixup t (f # g # fs) = rebuild X fs"
          using Red ub RightChildOf by (simp add: X_def)
        have "balanced X \<and> black_height X = black_height U \<and> no_red_red X \<and> color_of X = Black"
          using facts ub Red "3.prems" t
          by (cases f) (simp_all add: X_def U_def RightChildOf)
        then have X: "balanced X" "black_height X = black_height U" "no_red_red X"
          "color_of X = Black"
          by simp_all
        have "balanced (rebuild X fs)"
          using balanced_rebuild [of U fs X] ctx X by simp
        moreover have "no_red_red (rebuild X fs)"
          using no_red_red_rebuild [of U fs X] ctx X by simp
        ultimately show ?thesis unfolding eq by (simp add: no_red_red_paint_Black)
      qed
    qed
  qed
qed

lemma rbt_insert_inv:
  assumes "rbt_inv (root tree)"
  shows "rbt_inv (root (snd (rbt_insert compare tree key)))"
proof (cases "root tree")
  case Null
  then show ?thesis by (simp add: rbt_insert_def rbt_inv_iff)
next
  case (Node c l k r)
  show ?thesis
  proof (cases "descend compare key (root tree) []")
    case None
    then show ?thesis using assms Node by (simp add: rbt_insert_def)
  next
    case (Some path)
    let ?t = "Node Red Null key Null"
    have r: "rebuild Null path = root tree"
      using descend_rebuild [OF Some] by simp
    have "balanced (insert_fixup ?t path) \<and> no_red_red (paint Black (insert_fixup ?t path))"
      using assms r by (intro insert_fixup_inv [of _ Null]) (simp_all add: rbt_inv_iff)
    then have "rbt_inv (paint Black (insert_fixup ?t path))"
      by (simp add: rbt_inv_iff)
    then show ?thesis using Some Node by (simp add: rbt_insert_def)
  qed
qed

subsection \<open>Removal\<close>

lemma locate_rebuild:
  "locate compare key t path = Some (z, path') \<Longrightarrow>
   rebuild z path' = rebuild t path \<and> z \<noteq> Null"
  by (induction compare key t path rule: locate.induct) (auto split: if_splits)

lemma leftmost_rebuild:
  "leftmost t path = (y, path') \<Longrightarrow> \<exists>ps. path' = ps @ path \<and> rebuild y ps = t"
proof (induction t path rule: leftmost.induct)
  case (1 path)
  then show ?case by simp
next
  case (2 c k r path)
  then show ?case by simp
next
  case (3 c lc ll lk lr k r path)
  then obtain ps where "path' = ps @ LeftChildOf c k r # path"
    and "rebuild y ps = Node lc ll lk lr" by auto
  then have "path' = (ps @ [LeftChildOf c k r]) @ path \<and>
      rebuild y (ps @ [LeftChildOf c k r]) = Node c (Node lc ll lk lr) k r"
    by (simp add: rebuild_append)
  then show ?case by blast
qed

lemma leftmost_shape:
  "t \<noteq> Null \<Longrightarrow> leftmost t path = (y, path') \<Longrightarrow> \<exists>yc yk yr. y = Node yc Null yk yr"
  by (induction t path rule: leftmost.induct) auto

lemma root_color_rebuild_nonempty:
  "fs \<noteq> [] \<Longrightarrow> color_of (rebuild t fs) = color_of (rebuild u fs)"
  by (cases fs) (simp_all add: root_color_rebuild)

lemma black_Node: "color_of t = Black \<Longrightarrow> 0 < black_height t \<Longrightarrow> \<exists>l k r. t = Node Black l k r"
  by (cases t) simp_all

lemma pos_height_Node: "0 < black_height t \<Longrightarrow> \<exists>c l k r. t = Node c l k r"
  by (cases t) simp_all

lemma black_sibling_right_inv:
  assumes x: "balanced x" "no_red_red x"
    and ctx: "balanced (rebuild (Node pc u pk s) fs)" "no_red_red (rebuild (Node pc u pk s) fs)"
      "color_of (rebuild (Node pc u pk s) fs) = Black"
    and s: "color_of s = Black" and u: "black_height u = black_height x + 1" "color_of u = Black"
    and step: "black_sibling_right x pc pk s fs = (x', path')"
  shows "balanced x' \<and> no_red_red (paint Black x') \<and> (path' = [] \<or> (\<exists>u'. double_black x' u' path'))"
proof -
  define U where "U = Node pc u pk s"
  have U: "balanced U" "no_red_red U"
    using ctx balanced_rebuildD [of U fs] no_red_red_rebuildD [of U fs] by (simp_all add: U_def)
  have "0 < black_height s" using U u by (simp add: U_def)
  then obtain sl sk sr where sN: "s = Node Black sl sk sr"
    using black_Node [OF s] by blast
  have facts: "black_height sl = black_height x" "black_height sr = black_height x"
    "balanced sl" "balanced sr" "balanced u" "no_red_red sl" "no_red_red sr" "no_red_red u"
    using U u by (simp_all add: U_def sN)
  have ctxU: "balanced (rebuild U fs)" "no_red_red (rebuild U fs)"
    using ctx by (simp_all add: U_def)
  have finish: ?thesis
    if X: "x' = rebuild X fs" "path' = []" "balanced X" "black_height X = black_height U"
      "no_red_red X" "color_of X = pc" for X
  proof -
    have "balanced (rebuild X fs)" using balanced_rebuild [of U fs X] ctxU X by simp
    moreover have "color_of X = Black \<or> color_of U = Red"
      using X by (cases pc) (simp_all add: U_def)
    then have "no_red_red (rebuild X fs)" using no_red_red_rebuild [of U fs X] ctxU X by simp
    ultimately show ?thesis using X by (simp add: no_red_red_paint_Black)
  qed
  show ?thesis
  proof (cases "color_of sl = Black \<and> color_of sr = Black")
    case True
    then have r: "x' = Node pc x pk (Node Red sl sk sr)" "path' = fs"
      using step by (simp_all add: sN)
    have "double_black x' U fs"
      using ctx u facts by (cases pc) (simp_all add: double_black_def r U_def sN)
    moreover have "balanced x'" "no_red_red (paint Black x')"
      using x facts True by (simp_all add: r)
    ultimately show ?thesis using r by blast
  next
    case False
    show ?thesis
    proof (cases "color_of sr")
      case Black
      then have "color_of sl = Red" using False by simp
      then obtain a k b where sl: "sl = Node Red a k b" using red_is_Node by blast
      let ?X = "Node pc (Node Black x pk a) k (Node Black b sk sr)"
      have "x' = rebuild ?X fs" "path' = []"
        using step Black by (simp_all add: sN sl)
      moreover have "balanced ?X" "black_height ?X = black_height U" "no_red_red ?X"
        using x facts u Black by (simp_all add: U_def sN sl)
      ultimately show ?thesis by (intro finish [of ?X]) simp_all
    next
      case Red
      then obtain c k d where sr: "sr = Node Red c k d" using red_is_Node by blast
      let ?X = "Node pc (Node Black x pk sl) sk (Node Black c k d)"
      have "x' = rebuild ?X fs" "path' = []"
        using step Red by (simp_all add: sN sr)
      moreover have "balanced ?X" "black_height ?X = black_height U" "no_red_red ?X"
        using x facts u by (simp_all add: U_def sN sr)
      ultimately show ?thesis by (intro finish [of ?X]) simp_all
    qed
  qed
qed

lemma black_sibling_left_inv:
  assumes x: "balanced x" "no_red_red x"
    and ctx: "balanced (rebuild (Node pc s pk u) fs)" "no_red_red (rebuild (Node pc s pk u) fs)"
      "color_of (rebuild (Node pc s pk u) fs) = Black"
    and s: "color_of s = Black" and u: "black_height u = black_height x + 1" "color_of u = Black"
    and step: "black_sibling_left x pc pk s fs = (x', path')"
  shows "balanced x' \<and> no_red_red (paint Black x') \<and> (path' = [] \<or> (\<exists>u'. double_black x' u' path'))"
proof -
  define U where "U = Node pc s pk u"
  have U: "balanced U" "no_red_red U"
    using ctx balanced_rebuildD [of U fs] no_red_red_rebuildD [of U fs] by (simp_all add: U_def)
  have "0 < black_height s" using U u by (simp add: U_def)
  then obtain sl sk sr where sN: "s = Node Black sl sk sr"
    using black_Node [OF s] by blast
  have facts: "black_height sl = black_height x" "black_height sr = black_height x"
    "balanced sl" "balanced sr" "balanced u" "no_red_red sl" "no_red_red sr" "no_red_red u"
    using U u by (simp_all add: U_def sN)
  have ctxU: "balanced (rebuild U fs)" "no_red_red (rebuild U fs)"
    using ctx by (simp_all add: U_def)
  have finish: ?thesis
    if X: "x' = rebuild X fs" "path' = []" "balanced X" "black_height X = black_height U"
      "no_red_red X" "color_of X = pc" for X
  proof -
    have "balanced (rebuild X fs)" using balanced_rebuild [of U fs X] ctxU X by simp
    moreover have "color_of X = Black \<or> color_of U = Red"
      using X by (cases pc) (simp_all add: U_def)
    then have "no_red_red (rebuild X fs)" using no_red_red_rebuild [of U fs X] ctxU X by simp
    ultimately show ?thesis using X by (simp add: no_red_red_paint_Black)
  qed
  show ?thesis
  proof (cases "color_of sl = Black \<and> color_of sr = Black")
    case True
    then have r: "x' = Node pc (Node Red sl sk sr) pk x" "path' = fs"
      using step by (simp_all add: sN)
    have "double_black x' U fs"
      using ctx u facts by (cases pc) (simp_all add: double_black_def r U_def sN)
    moreover have "balanced x'" "no_red_red (paint Black x')"
      using x facts True by (simp_all add: r)
    ultimately show ?thesis using r by blast
  next
    case False
    show ?thesis
    proof (cases "color_of sl")
      case Black
      then have "color_of sr = Red" using False by simp
      then obtain a k b where sr: "sr = Node Red a k b" using red_is_Node by blast
      let ?X = "Node pc (Node Black sl sk a) k (Node Black b pk x)"
      have "x' = rebuild ?X fs" "path' = []"
        using step Black by (simp_all add: sN sr)
      moreover have "balanced ?X" "black_height ?X = black_height U" "no_red_red ?X"
        using x facts u Black by (simp_all add: U_def sN sr)
      ultimately show ?thesis by (intro finish [of ?X]) simp_all
    next
      case Red
      then obtain c k d where sl: "sl = Node Red c k d" using red_is_Node by blast
      let ?X = "Node pc (Node Black c k d) sk (Node Black sr pk x)"
      have "x' = rebuild ?X fs" "path' = []"
        using step Red by (simp_all add: sN sl)
      moreover have "balanced ?X" "black_height ?X = black_height U" "no_red_red ?X"
        using x facts u by (simp_all add: U_def sN sl)
      ultimately show ?thesis by (intro finish [of ?X]) simp_all
    qed
  qed
qed

lemma delete_step_inv:
  assumes x: "color_of x = Black" "balanced x" "no_red_red x"
    and db: "double_black x u (f # fs)"
    and step: "delete_step x f fs = (x', path')"
  shows "balanced x' \<and> no_red_red (paint Black x') \<and> (path' = [] \<or> (\<exists>u'. double_black x' u' path'))"
proof -
  define U where "U = plug u f"
  have ctx: "balanced (rebuild U fs)" "no_red_red (rebuild U fs)"
    "color_of (rebuild U fs) = Black"
    using db by (simp_all add: double_black_def U_def)
  have u: "black_height u = black_height x + 1" "color_of u = Black"
    using db x by (simp_all add: double_black_def)
  have U: "balanced U" "no_red_red U"
    using ctx balanced_rebuildD [of U fs] no_red_red_rebuildD [of U fs] by simp_all
  show ?thesis
  proof (cases f)
    case (LeftChildOf pc pk s)
    have Ueq: "U = Node pc u pk s" by (simp add: U_def LeftChildOf)
    have "0 < black_height s" using U u by (simp add: Ueq)
    then obtain sc sl sk sr where sN: "s = Node sc sl sk sr"
      using pos_height_Node by blast
    show ?thesis
    proof (cases sc)
      case Black
      have "black_sibling_right x pc pk s fs = (x', path')"
        using step by (simp add: LeftChildOf sN Black)
      then show ?thesis
        using x ctx u by (intro black_sibling_right_inv [of x pc u pk s fs])
          (simp_all add: Ueq sN Black)
    next
      case Red
      let ?F = "LeftChildOf Black sk sr"
      let ?V = "Node Black (Node Red u pk sl) sk sr"
      have facts: "pc = Black" "color_of sl = Black" "color_of sr = Black"
        "black_height sl = black_height u" "black_height sr = black_height u"
        "balanced sl" "balanced sr" "balanced u" "no_red_red sl" "no_red_red sr" "no_red_red u"
        using U u by (simp_all add: Ueq sN Red)
      have V: "balanced ?V" "black_height ?V = black_height U" "no_red_red ?V"
        using facts u by (simp_all add: Ueq sN Red)
      have "balanced (rebuild ?V fs)" using balanced_rebuild [of U fs ?V] ctx V by simp
      moreover have "no_red_red (rebuild ?V fs)"
        using no_red_red_rebuild [of U fs ?V] ctx V by simp
      moreover have "color_of (rebuild ?V fs) = Black"
        using root_color_rebuild [of ?V U fs] ctx facts by (simp add: Ueq)
      moreover have "black_sibling_right x Red pk sl (?F # fs) = (x', path')"
        using step by (simp add: LeftChildOf sN Red)
      ultimately show ?thesis
        using x u facts by (intro black_sibling_right_inv [of x Red u pk sl "?F # fs"]) simp_all
    qed
  next
    case (RightChildOf pc s pk)
    have Ueq: "U = Node pc s pk u" by (simp add: U_def RightChildOf)
    have "0 < black_height s" using U u by (simp add: Ueq)
    then obtain sc sl sk sr where sN: "s = Node sc sl sk sr"
      using pos_height_Node by blast
    show ?thesis
    proof (cases sc)
      case Black
      have "black_sibling_left x pc pk s fs = (x', path')"
        using step by (simp add: RightChildOf sN Black)
      then show ?thesis
        using x ctx u by (intro black_sibling_left_inv [of x pc s pk u fs])
          (simp_all add: Ueq sN Black)
    next
      case Red
      let ?F = "RightChildOf Black sl sk"
      let ?V = "Node Black sl sk (Node Red sr pk u)"
      have facts: "pc = Black" "color_of sl = Black" "color_of sr = Black"
        "black_height sl = black_height u" "black_height sr = black_height u"
        "balanced sl" "balanced sr" "balanced u" "no_red_red sl" "no_red_red sr" "no_red_red u"
        using U u by (simp_all add: Ueq sN Red)
      have V: "balanced ?V" "black_height ?V = black_height U" "no_red_red ?V"
        using facts u by (simp_all add: Ueq sN Red)
      have "balanced (rebuild ?V fs)" using balanced_rebuild [of U fs ?V] ctx V by simp
      moreover have "no_red_red (rebuild ?V fs)"
        using no_red_red_rebuild [of U fs ?V] ctx V by simp
      moreover have "color_of (rebuild ?V fs) = Black"
        using root_color_rebuild [of ?V U fs] ctx facts by (simp add: Ueq)
      moreover have "black_sibling_left x Red pk sr (?F # fs) = (x', path')"
        using step by (simp add: RightChildOf sN Red)
      ultimately show ?thesis
        using x u facts by (intro black_sibling_left_inv [of x Red sr pk u "?F # fs"]) simp_all
    qed
  qed
qed

lemma delete_fixup_inv:
  assumes "balanced x" and "no_red_red (paint Black x)"
    and "path = [] \<or> double_black x u path"
  shows "color_of (delete_fixup x path) = Black \<and> no_red_red (delete_fixup x path) \<and>
         balanced (delete_fixup x path)"
  using assms
proof (induction x path arbitrary: u rule: delete_fixup.induct)
  case (1 x)
  then show ?case by simp
next
  case (2 x f fs)
  have db: "double_black x u (f # fs)" using "2.prems" by simp
  show ?case
  proof (cases "color_of x")
    case Red
    let ?x = "paint Black x"
    have "black_height ?x = black_height u"
      using db Red by (simp add: double_black_def black_height_paint_Black)
    then have "balanced (rebuild ?x (f # fs))"
      using balanced_rebuild [of u "f # fs" ?x] db "2.prems" by (simp add: double_black_def)
    moreover have "no_red_red (rebuild ?x (f # fs))"
      using no_red_red_rebuild [of u "f # fs" ?x] db "2.prems" by (simp add: double_black_def)
    moreover have "color_of (rebuild ?x (f # fs)) = Black"
      using root_color_rebuild_Cons [of ?x f fs u] db by (simp add: double_black_def)
    ultimately show ?thesis using Red by simp
  next
    case Black
    obtain x' path' where step: "delete_step x f fs = (x', path')"
      by (cases "delete_step x f fs")
    have nx: "no_red_red x"
      using "2.prems"(2) Black by (simp add: no_red_red_paint_Black_iff)
    from delete_step_inv [OF Black "2.prems"(1) nx db step]
    have x': "balanced x'" "no_red_red (paint Black x')"
      and p': "path' = [] \<or> (\<exists>u'. double_black x' u' path')" by simp_all
    from p' obtain u' where "path' = [] \<or> double_black x' u' path'" by blast
    then have "color_of (delete_fixup x' path') = Black \<and> no_red_red (delete_fixup x' path') \<and>
        balanced (delete_fixup x' path')"
      using Black step x' by (intro "2.IH" [where u = u']) simp_all
    then show ?thesis using Black step by simp
  qed
qed

lemma spliced_child:
  assumes "balanced (Node c l k r)" and "l = Null \<or> r = Null"
  shows "black_height (if l = Null then r else l) = 0 \<and> balanced (if l = Null then r else l) \<and>
         black_height l = 0"
  using assms by auto

lemma remove_node_inv:
  assumes ctx: "balanced (rebuild (Node c l k r) path)" "no_red_red (rebuild (Node c l k r) path)"
      "color_of (rebuild (Node c l k r) path) = Black"
    and x: "black_height x = 0" "balanced x" "no_red_red x" "black_height l = 0"
  shows "rbt_inv (if c = Red then rebuild x path else delete_fixup x path)"
proof (cases c)
  case Red
  let ?u = "Node c l k r"
  have "path \<noteq> []" using ctx Red by auto
  then have "color_of (rebuild x path) = Black"
    using root_color_rebuild_nonempty [of path x ?u] ctx by simp
  moreover have "balanced (rebuild x path)"
    using balanced_rebuild [of ?u path x] ctx x Red by simp
  moreover have "no_red_red (rebuild x path)"
    using no_red_red_rebuild [of ?u path x] ctx x Red by simp
  ultimately show ?thesis using Red by (simp add: rbt_inv_iff)
next
  case Black
  let ?u = "Node c l k r"
  have "path = [] \<or> double_black x ?u path"
    using ctx x Black by (simp add: double_black_def)
  then have "color_of (delete_fixup x path) = Black \<and> no_red_red (delete_fixup x path) \<and>
      balanced (delete_fixup x path)"
    using x by (intro delete_fixup_inv [of x path ?u]) (simp_all add: no_red_red_paint_Black)
  then show ?thesis using Black by (simp add: rbt_inv_iff)
qed

lemma rbt_remove_inv:
  assumes "rbt_inv (root tree)"
  shows "rbt_inv (root (snd (rbt_remove compare tree key)))"
proof (cases "locate compare key (root tree) []")
  case None
  then show ?thesis using assms by (simp add: rbt_remove_def)
next
  case (Some found)
  obtain z path where found: "found = (z, path)" by (cases found)
  have "rebuild z path = root tree" "z \<noteq> Null"
    using locate_rebuild [of compare key "root tree" "[]" z path] Some found by simp_all
  then obtain zc zl zk zr where z: "z = Node zc zl zk zr" and r: "rebuild z path = root tree"
    by (cases z) auto
  have ctx: "balanced (rebuild z path)" "no_red_red (rebuild z path)"
    "color_of (rebuild z path) = Black"
    using assms r by (simp_all add: rbt_inv_iff)
  have zz: "balanced z" "no_red_red z"
    using ctx balanced_rebuildD no_red_red_rebuildD by blast+
  show ?thesis
  proof (cases "zl \<noteq> Null \<and> zr \<noteq> Null")
    case False
    let ?x = "if zl = Null then zr else zl"
    have "black_height ?x = 0 \<and> balanced ?x \<and> black_height zl = 0"
      using zz False by (intro spliced_child [of zc zl zk zr]) (auto simp: z)
    moreover have "no_red_red ?x" using zz by (simp add: z)
    ultimately have "rbt_inv (if zc = Red then rebuild ?x path else delete_fixup ?x path)"
      using ctx by (intro remove_node_inv [of zc zl zk zr path ?x]) (simp_all add: z)
    moreover have "root (snd (rbt_remove compare tree key)) =
        (if zc = Red then rebuild ?x path else delete_fixup ?x path)"
      using Some found z False by (auto simp: rbt_remove_def)
    ultimately show ?thesis by simp
  next
    case True
    obtain y ypath where lm: "leftmost zr [] = (y, ypath)" by (cases "leftmost zr []")
    obtain yc yk yr where y: "y = Node yc Null yk yr"
      using leftmost_shape [of zr "[]" y ypath] True lm by blast
    have ry: "rebuild y ypath = zr"
      using leftmost_rebuild [OF lm] by auto
    let ?Z = "Node zc zl yk zr"
    let ?xpath = "ypath @ RightChildOf zc zl yk # path"
    have Z: "balanced ?Z" "black_height ?Z = black_height z" "no_red_red ?Z"
      "color_of ?Z = color_of z"
      using zz by (simp_all add: z)
    have cz: "balanced (rebuild ?Z path)" "no_red_red (rebuild ?Z path)"
      "color_of (rebuild ?Z path) = Black"
    proof -
      show "balanced (rebuild ?Z path)" using balanced_rebuild [of z path ?Z] ctx Z by simp
      have "color_of ?Z = Black \<or> color_of z = Red" by (cases zc) (simp_all add: z)
      then show "no_red_red (rebuild ?Z path)"
        using no_red_red_rebuild [of z path ?Z] ctx Z by simp
      show "color_of (rebuild ?Z path) = Black"
        using root_color_rebuild [of ?Z z path] ctx Z by simp
    qed
    have eq: "rebuild y ?xpath = rebuild ?Z path"
      by (simp add: rebuild_append ry)
    have cy: "balanced (rebuild (Node yc Null yk yr) ?xpath)"
      "no_red_red (rebuild (Node yc Null yk yr) ?xpath)"
      "color_of (rebuild (Node yc Null yk yr) ?xpath) = Black"
      using cz eq by (simp_all add: y)
    have by': "balanced y" "no_red_red y"
      using cy balanced_rebuildD no_red_red_rebuildD unfolding y by blast+
    then have "black_height yr = 0" "balanced yr" "no_red_red yr"
      by (simp_all add: y)
    then have "rbt_inv (if yc = Red then rebuild yr ?xpath else delete_fixup yr ?xpath)"
      using cy by (intro remove_node_inv [of yc Null yk yr ?xpath yr]) simp_all
    moreover have "root (snd (rbt_remove compare tree key)) =
        (if yc = Red then rebuild yr ?xpath else delete_fixup yr ?xpath)"
      using Some found z True lm y by (simp add: rbt_remove_def)
    ultimately show ?thesis by simp
  qed
qed

lemma rbt_run_inv:
  "rbt_inv (root tree) \<Longrightarrow> list_all (\<lambda>t. rbt_inv (root t)) (rbt_run compare tree ops)"
proof (induction ops arbitrary: tree)
  case Nil
  then show ?case by simp
next
  case (Cons op ops)
  show ?case
  proof (cases op)
    case (Insert k)
    have "rbt_inv (root (snd (rbt_insert compare tree k)))"
      using Cons.prems by (rule rbt_insert_inv)
    then show ?thesis using Cons.IH Insert by (simp add: Let_def)
  next
    case (Remove k)
    have "rbt_inv (root (snd (rbt_remove compare tree k)))"
      using Cons.prems by (rule rbt_remove_inv)
    then show ?thesis using Cons.IH Remove by (simp add: Let_def)
  qed
qed

section \<open>The claims about QueueArray\<close>

text \<open>
  C1. The size in bytes of the new buffer is computed in \<^verbatim>\<open>size_t\<close> and wraps around.
  On the full queue of capacity 513 with \<open>front = 0\<close> and growth rate
  449482068072844896, which holds 512 times the element 7 and then the element 9, the
  new capacity is \<open>2 ^ 61 + 512\<close>, \<^verbatim>\<open>realloc\<close> is asked for 4096 bytes and returns a
  block of 512 cells, and \<^verbatim>\<open>qua_grow\<close> returns true with a size of 513: the last
  element of the queue is no longer in the buffer. On the full queue of
  capacity 128 with \<open>front = 100\<close> and growth rate 1801439850948198800, the new capacity
  is \<open>2 ^ 61 + 512\<close> as well, the reallocation succeeds, and the loop that shifts the right
  portion stores outside the block of 512 cells.
\<close>

theorem qua_grow_relayout_counterexample:
  "qua_inv \<lparr>buffer = replicate 512 7 @ [9], front = 0, rear = 0, size_q = 513, capacity = 513,
            growth_rate = 449482068072844896, locked = False, version_id = 513\<rparr> \<and>
   qua_full \<lparr>buffer = replicate 512 7 @ [9], front = 0, rear = 0, size_q = 513, capacity = 513,
            growth_rate = 449482068072844896, locked = False, version_id = 513\<rparr> \<and>
   logical_seq \<lparr>buffer = replicate 512 7 @ [9], front = 0, rear = 0, size_q = 513, capacity = 513,
            growth_rate = 449482068072844896, locked = False, version_id = 513\<rparr> =
     replicate 512 7 @ [9] \<and>
   qua_grow (AllocOk (\<lambda>i. NULL))
      \<lparr>buffer = replicate 512 7 @ [9], front = 0, rear = 0, size_q = 513, capacity = 513,
        growth_rate = 449482068072844896, locked = False, version_id = 513\<rparr> =
     Inr (True, \<lparr>buffer = replicate 512 7, front = 0, rear = 513, size_q = 513,
        capacity = 2305843009213694464, growth_rate = 449482068072844896, locked = False,
        version_id = 513\<rparr>) \<and>
   length (replicate 512 (7 :: ptr)) = 512 \<and>
   byte_count 2305843009213694464 = 4096 \<and>
   qua_inv \<lparr>buffer = [1..<129], front = 100, rear = 100, size_q = 128, capacity = 128,
            growth_rate = 1801439850948198800, locked = False, version_id = 128\<rparr> \<and>
   qua_full \<lparr>buffer = [1..<129], front = 100, rear = 100, size_q = 128, capacity = 128,
            growth_rate = 1801439850948198800, locked = False, version_id = 128\<rparr> \<and>
   grown_capacity \<lparr>buffer = [1..<129], front = 100, rear = 100, size_q = 128, capacity = 128,
            growth_rate = 1801439850948198800, locked = False, version_id = 128\<rparr> =
     Inr 2305843009213694464 \<and>
   qua_grow (AllocOk (\<lambda>i. NULL))
      \<lparr>buffer = [1..<129], front = 100, rear = 100, size_q = 128, capacity = 128,
        growth_rate = 1801439850948198800, locked = False, version_id = 128\<rparr> =
     Inl OutOfBounds"
  by code_simp

text \<open>
  C1, amended. For every full, unlocked queue in a state that the functions of the file
  produce (for a full queue, \<open>front = rear\<close> at any index of the buffer, wrapped or not)
  whose new capacity \<open>n\<close> is computed within \<^verbatim>\<open>integer_t\<close> and is below \<open>2 ^ 61\<close>, so
  that the size in bytes of the new buffer does not wrap around, a \<^verbatim>\<open>qua_grow\<close> whose
  reallocation succeeds returns true and is a pure re-layout: the occupied region is
  still \<open>size\<close> circularly contiguous slots from the new \<open>front\<close>, inside a buffer of
  \<open>n\<close> slots, and the logical sequence front to rear is the one before the growth.
\<close>

theorem qua_grow_relayout:
  assumes "qua_inv q" and "qua_full q" and "\<not> locked q"
    and "grown_capacity q = Inr n" and "n < 2 ^ 61"
  shows "\<exists>q'. qua_grow (AllocOk junk) q = Inr (True, q') \<and> qua_inv q' \<and>
           size_q q' = size_q q \<and> logical_seq q' = logical_seq q \<and> capacity q' = n"
proof -
  have full: "size_q q = capacity q" using assms(2) by (simp add: qua_full_def)
  from qua_grow_full [OF assms(1) full assms(3) assms(4) assms(5), of junk]
  show ?thesis by metis
qed

theorem qua_grow_relayout_witness:
  "qua_inv \<lparr>buffer = [12, 13, 14, 11], front = 3, rear = 3, size_q = 4, capacity = 4,
            growth_rate = 200, locked = False, version_id = 5\<rparr> \<and>
   qua_full \<lparr>buffer = [12, 13, 14, 11], front = 3, rear = 3, size_q = 4, capacity = 4,
            growth_rate = 200, locked = False, version_id = 5\<rparr> \<and>
   grown_capacity \<lparr>buffer = [12, 13, 14, 11], front = 3, rear = 3, size_q = 4, capacity = 4,
            growth_rate = 200, locked = False, version_id = 5\<rparr> = Inr 8 \<and>
   (8 :: int) < 2 ^ 61 \<and>
   (\<exists>q'. qua_grow (AllocOk (\<lambda>i. NULL))
           \<lparr>buffer = [12, 13, 14, 11], front = 3, rear = 3, size_q = 4, capacity = 4,
            growth_rate = 200, locked = False, version_id = 5\<rparr> = Inr (True, q') \<and>
         qua_inv q' \<and> size_q q' = 4 \<and> logical_seq q' = [11, 12, 13, 14] \<and> capacity q' = 8)"
proof -
  let ?q = "\<lparr>buffer = [12, 13, 14, 11], front = 3, rear = 3, size_q = 4, capacity = 4,
             growth_rate = 200, locked = False, version_id = 5\<rparr>"
  have h1: "qua_inv ?q" by code_simp
  have h2: "qua_full ?q" by code_simp
  have h3: "\<not> locked ?q" by simp
  have h4: "grown_capacity ?q = Inr 8" by code_simp
  have h5: "(8 :: int) < 2 ^ 61" by simp
  have s: "logical_seq ?q = [11, 12, 13, 14]" by code_simp
  from qua_grow_relayout [OF h1 h2 h3 h4 h5, of "\<lambda>i. NULL"] show ?thesis
    using h1 h2 h4 s by simp
qed

text \<open>
  C2. On the queue made by \<^verbatim>\<open>qua_create (32, 7205759403792793600)\<close>, the growth rate
  being \<open>100 * 2 ^ 56\<close>, thirty-two calls of \<^verbatim>\<open>qua_enqueue\<close> fill the buffer. The next
  one grows it: the new capacity is \<open>2 ^ 61\<close>, whose size in bytes wraps around to
  zero, and \<^verbatim>\<open>realloc\<close> is asked for zero bytes. With glibc the buffer is released and
  the call returns the null pointer; \<^verbatim>\<open>qua_enqueue\<close> returns false, and the
  \<^verbatim>\<open>qua_dequeue\<close> that follows returns true with what it reads in the released block.
\<close>

theorem qua_fifo_counterexample:
  "qua_create True True 32 7205759403792793600 =
     Inr (Some \<lparr>buffer = replicate 32 NULL, front = 0, rear = 0, size_q = 0, capacity = 32,
                 growth_rate = 7205759403792793600, locked = False, version_id = 0\<rparr>) \<and>
   run_ops \<lparr>buffer = replicate 32 NULL, front = 0, rear = 0, size_q = 0, capacity = 32,
             growth_rate = 7205759403792793600, locked = False, version_id = 0\<rparr>
     (map (Enqueue AllocFails) [1..<33]) =
     Inr (map (Enqueued True) [1..<33],
          \<lparr>buffer = [1..<33], front = 0, rear = 0, size_q = 32, capacity = 32,
            growth_rate = 7205759403792793600, locked = False, version_id = 32\<rparr>) \<and>
   grown_capacity \<lparr>buffer = [1..<33], front = 0, rear = 0, size_q = 32, capacity = 32,
            growth_rate = 7205759403792793600, locked = False, version_id = 32\<rparr> =
     Inr 2305843009213693952 \<and>
   byte_count 2305843009213693952 = 0 \<and>
   qua_enqueue AllocFails
      \<lparr>buffer = [1..<33], front = 0, rear = 0, size_q = 32, capacity = 32,
        growth_rate = 7205759403792793600, locked = False, version_id = 32\<rparr> 33 =
     Inl ZeroSizeRequest \<and>
   run_ops \<lparr>buffer = replicate 32 NULL, front = 0, rear = 0, size_q = 0, capacity = 32,
             growth_rate = 7205759403792793600, locked = False, version_id = 0\<rparr>
     (map (Enqueue AllocFails) [1..<33] @ [Enqueue AllocFails 33, Dequeue]) =
     Inl ZeroSizeRequest"
  by code_simp

text \<open>
  C2, amended. For every sequence of \<^verbatim>\<open>qua_enqueue\<close> and \<^verbatim>\<open>qua_dequeue\<close> calls on a
  queue made by \<^verbatim>\<open>qua_new\<close> or \<^verbatim>\<open>qua_create\<close>, whatever the outcome of each
  reallocation, that runs without a fault and keeps the capacity below \<open>2 ^ 61\<close>:
  every successful dequeue returns the oldest element enqueued with success and not yet
  dequeued, and after \<open>k\<close> successful enqueues and \<open>j\<close> successful dequeues,
  \<open>j \<le> k\<close> and \<^verbatim>\<open>qua_size\<close> is \<open>k - j\<close>. Every sequence of \<open>n\<close> calls on a queue of
  growth rate \<open>R\<close> with \<open>n * R < 2 ^ 50\<close> is such a run.
\<close>

theorem qua_fifo_order:
  assumes "qua_new s b = Some q0 \<or> qua_create s b c r = Inr (Some q0)"
  shows "(run_ops q0 ops = Inr (rs, q) \<and> capacity q < 2 ^ 61 \<longrightarrow>
            fifo_trace [] rs \<and> deq_count rs \<le> enq_count rs \<and>
            qua_size q = int (enq_count rs) - int (deq_count rs)) \<and>
         (int (length ops) * growth_rate q0 < 2 ^ 50 \<longrightarrow>
            (\<exists>rs' q'. run_ops q0 ops = Inr (rs', q') \<and> capacity q' < 2 ^ 61))"
proof -
  have q0: "qua_inv q0 \<and> size_q q0 = 0 \<and> logical_seq q0 = [] \<and>
      capacity q0 < 2 ^ 61 \<and> 0 < growth_rate q0"
    using assms qua_new_inv [of s b q0] qua_create_inv [of s b c r q0] by auto
  have safe: "fifo_trace [] rs \<and> deq_count rs \<le> enq_count rs \<and>
      qua_size q = int (enq_count rs) - int (deq_count rs)"
    if run: "run_ops q0 ops = Inr (rs, q)" and fits: "capacity q < 2 ^ 61"
  proof -
    have "fifo_trace (logical_seq q0) rs \<and> qua_inv q \<and>
        size_q q + int (deq_count rs) = size_q q0 + int (enq_count rs)"
      using q0 run fits by (intro run_ops_fifo) simp_all
    moreover have "0 \<le> size_q q" if "qua_inv q" using that by (simp add: qua_inv_def)
    ultimately show ?thesis using q0 by (auto simp: qua_size_def)
  qed
  have total: "\<exists>rs' q'. run_ops q0 ops = Inr (rs', q') \<and> capacity q' < 2 ^ 61"
    if "int (length ops) * growth_rate q0 < 2 ^ 50"
    using q0 that by (intro run_ops_total) simp_all
  show ?thesis using safe total by blast
qed

theorem qua_fifo_order_witness:
  "(qua_new True True =
      Some \<lparr>buffer = [NULL, NULL], front = 0, rear = 0, size_q = 0, capacity = 2,
            growth_rate = 101, locked = False, version_id = 0\<rparr> \<or>
    qua_create True True 2 101 =
      Inr (Some \<lparr>buffer = [NULL, NULL], front = 0, rear = 0, size_q = 0, capacity = 2,
            growth_rate = 101, locked = False, version_id = 0\<rparr>)) \<and>
   run_ops \<lparr>buffer = [NULL, NULL], front = 0, rear = 0, size_q = 0, capacity = 2,
            growth_rate = 101, locked = False, version_id = 0\<rparr>
     [Enqueue AllocFails 11, Enqueue AllocFails 12, Dequeue, Enqueue AllocFails 13,
      Enqueue AllocFails 14, Enqueue (AllocOk (\<lambda>i. NULL)) 14, Enqueue AllocFails 15,
      Dequeue, Dequeue, Dequeue] =
     Inr ([Enqueued True 11, Enqueued True 12, Dequeued True 11, Enqueued True 13,
       Enqueued False 14, Enqueued True 14, Enqueued True 15,
       Dequeued True 12, Dequeued True 13, Dequeued True 14],
      \<lparr>buffer = [13, NULL, NULL, NULL, 15, NULL], front = 4, rear = 5, size_q = 1,
        capacity = 6, growth_rate = 101, locked = False, version_id = 9\<rparr>) \<and>
   (6 :: int) < 2 ^ 61 \<and> (10 :: int) * 101 < 2 ^ 50 \<and>
   fifo_trace []
     [Enqueued True 11, Enqueued True 12, Dequeued True 11, Enqueued True 13,
      Enqueued False 14, Enqueued True 14, Enqueued True 15,
      Dequeued True 12, Dequeued True 13, Dequeued True 14] \<and>
   qua_size \<lparr>buffer = [13, NULL, NULL, NULL, 15, NULL], front = 4, rear = 5, size_q = 1,
        capacity = 6, growth_rate = 101, locked = False, version_id = 9\<rparr> = 5 - 4"
proof -
  let ?init = "\<lparr>buffer = [NULL, NULL], front = 0, rear = 0, size_q = 0, capacity = 2,
              growth_rate = 101, locked = False, version_id = 0\<rparr>"
  let ?ops = "[Enqueue AllocFails 11, Enqueue AllocFails 12, Dequeue, Enqueue AllocFails 13,
      Enqueue AllocFails 14, Enqueue (AllocOk (\<lambda>i. NULL)) 14, Enqueue AllocFails 15,
      Dequeue, Dequeue, Dequeue]"
  let ?rs = "[Enqueued True 11, Enqueued True 12, Dequeued True 11, Enqueued True 13,
       Enqueued False 14, Enqueued True 14, Enqueued True 15,
       Dequeued True 12, Dequeued True 13, Dequeued True 14]"
  let ?q = "\<lparr>buffer = [13, NULL, NULL, NULL, 15, NULL], front = 4, rear = 5, size_q = 1,
        capacity = 6, growth_rate = 101, locked = False, version_id = 9\<rparr>"
  have c: "qua_create True True 2 101 = Inr (Some ?init)" by code_simp
  have h1: "qua_new True True = Some ?init \<or> qua_create True True 2 101 = Inr (Some ?init)"
    using c by (rule disjI2)
  have h2: "run_ops ?init ?ops = Inr (?rs, ?q)" by code_simp
  have h3: "capacity ?q < 2 ^ 61" "int (length ?ops) * growth_rate ?init < 2 ^ 50" by simp_all
  have e: "enq_count ?rs = 5" "deq_count ?rs = 4" by simp_all
  from qua_fifo_order [OF h1, of ?ops ?rs ?q] show ?thesis
    using h1 h2 h3 unfolding e by simp
qed

text \<open>
  C3. \<^verbatim>\<open>qua_copy\<close> is documented to copy all the elements, and its loop stops one
  element early (\<^verbatim>\<open>j < size - 1\<close>). Evaluated on the queue holding 7, 8, 9 (made by
  \<^verbatim>\<open>qua_create (4, 200)\<close>, five enqueues and two dequeues): capacity, growth rate, front,
  rear, size and lock are those of the source, and the last logical element of the copy
  is the null pointer instead of the copy of 9.
\<close>

theorem qua_copy_drops_last:
  "qua_create True True 4 200 =
     Inr (Some \<lparr>buffer = [NULL, NULL, NULL, NULL], front = 0, rear = 0, size_q = 0,
                 capacity = 4, growth_rate = 200, locked = False, version_id = 0\<rparr>) \<and>
   run_ops \<lparr>buffer = [NULL, NULL, NULL, NULL], front = 0, rear = 0, size_q = 0,
             capacity = 4, growth_rate = 200, locked = False, version_id = 0\<rparr>
     [Enqueue AllocFails 5, Enqueue AllocFails 6, Enqueue AllocFails 7, Dequeue, Dequeue,
      Enqueue AllocFails 8, Enqueue AllocFails 9] =
     Inr ([Enqueued True 5, Enqueued True 6, Enqueued True 7, Dequeued True 5,
           Dequeued True 6, Enqueued True 8, Enqueued True 9],
      \<lparr>buffer = [9, NULL, 7, 8], front = 2, rear = 1, size_q = 3, capacity = 4,
        growth_rate = 200, locked = False, version_id = 7\<rparr>) \<and>
   logical_seq \<lparr>buffer = [9, NULL, 7, 8], front = 2, rear = 1, size_q = 3, capacity = 4,
        growth_rate = 200, locked = False, version_id = 7\<rparr> = [7, 8, 9] \<and>
   qua_copy (\<lambda>p. p + 100) True True
      \<lparr>buffer = [9, NULL, 7, 8], front = 2, rear = 1, size_q = 3, capacity = 4,
        growth_rate = 200, locked = False, version_id = 7\<rparr> =
     Inr (Some \<lparr>buffer = [NULL, NULL, 107, 108], front = 2, rear = 1, size_q = 3,
        capacity = 4, growth_rate = 200, locked = False, version_id = 0\<rparr>) \<and>
   logical_seq \<lparr>buffer = [NULL, NULL, 107, 108], front = 2, rear = 1, size_q = 3,
        capacity = 4, growth_rate = 200, locked = False, version_id = 0\<rparr> = [107, 108, NULL]"
  by code_simp

text \<open>
  C4. \<^verbatim>\<open>qua_to_array\<close> is documented to copy the elements from the front element to the
  rear element, and its loop stores the copy of buffer slot \<open>i\<close> in array cell \<open>i\<close>
  (\<^verbatim>\<open>array[i]\<close>, not \<^verbatim>\<open>array[j]\<close>). Evaluated on the full queue holding 10, 20 with
  \<open>front = 1\<close> (made by \<^verbatim>\<open>qua_create (2, 200)\<close>, three enqueues and one dequeue), the
  array is the buffer order 20, 10 and not the logical order. On the queue holding 7, 8
  in slots 1 and 2 of four, the second store is past the end of the array of two cells.
\<close>

theorem qua_to_array_buffer_order:
  "qua_create True True 2 200 =
     Inr (Some \<lparr>buffer = [NULL, NULL], front = 0, rear = 0, size_q = 0, capacity = 2,
                 growth_rate = 200, locked = False, version_id = 0\<rparr>) \<and>
   run_ops \<lparr>buffer = [NULL, NULL], front = 0, rear = 0, size_q = 0, capacity = 2,
             growth_rate = 200, locked = False, version_id = 0\<rparr>
     [Enqueue AllocFails 5, Enqueue AllocFails 10, Dequeue, Enqueue AllocFails 20] =
     Inr ([Enqueued True 5, Enqueued True 10, Dequeued True 5, Enqueued True 20],
      \<lparr>buffer = [20, 10], front = 1, rear = 1, size_q = 2, capacity = 2,
        growth_rate = 200, locked = False, version_id = 4\<rparr>) \<and>
   logical_seq \<lparr>buffer = [20, 10], front = 1, rear = 1, size_q = 2, capacity = 2,
        growth_rate = 200, locked = False, version_id = 4\<rparr> = [10, 20] \<and>
   qua_to_array (\<lambda>p. p + 100) (AllocOk (\<lambda>i. NULL))
      \<lparr>buffer = [20, 10], front = 1, rear = 1, size_q = 2, capacity = 2,
        growth_rate = 200, locked = False, version_id = 4\<rparr> = Inr (Some ([120, 110], 2)) \<and>
   qua_to_array (\<lambda>p. p + 100) (AllocOk (\<lambda>i. NULL))
      \<lparr>buffer = [NULL, 7, 8, NULL], front = 1, rear = 3, size_q = 2, capacity = 4,
        growth_rate = 200, locked = False, version_id = 3\<rparr> = Inl OutOfBounds"
  by code_simp

text \<open>
  C5. The new capacity is computed in double precision and truncated, and the product
  can fall just below the exact integer: on a full queue of capacity 100 and growth rate
  115 the growth succeeds with capacity 114, where \<open>floor (100 * 115 / 100) = 115\<close>.
\<close>

theorem qua_grow_capacity_counterexample:
  "qua_grow (AllocOk (\<lambda>i. NULL))
      \<lparr>buffer = replicate 100 1, front = 0, rear = 0, size_q = 100, capacity = 100,
        growth_rate = 115, locked = False, version_id = 100\<rparr> =
     Inr (True, \<lparr>buffer = replicate 100 1 @ replicate 14 NULL, front = 0, rear = 100,
        size_q = 100, capacity = 114, growth_rate = 115, locked = False,
        version_id = 100\<rparr>) \<and>
   (if (100 * 115) div 100 - 100 < (4 :: int) then 100 + 4 else (100 * 115) div 100) = (115 :: int)"
  by code_simp

text \<open>
  C5, amended. For every queue of capacity \<open>C > 0\<close> and growth rate \<open>R > 0\<close> with
  \<open>C * R < 2 ^ 50\<close>, a successful \<^verbatim>\<open>qua_grow\<close> sets the capacity to exactly \<open>C + 4\<close> if
  \<open>floor (C * R / 100) - C < 4\<close>; otherwise it sets it to \<open>floor (C * R / 100)\<close> or to
  \<open>floor (C * R / 100) - 1\<close>, and to at least \<open>C + 4\<close>. The value is \<open>C + 4\<close> when
  \<open>T - C < 4\<close> and \<open>T\<close> otherwise, where \<open>T\<close> is the double precision product
  \<^verbatim>\<open>(double) C * ((double) R / 100.0)\<close> truncated to an integer. With \<open>C = 4\<close> and
  \<open>R = 101\<close> the capacity after the growth is 8.
\<close>

theorem qua_grow_capacity:
  assumes "qua_grow ra q = Inr (True, q')"
    and "0 < capacity q" and "0 < growth_rate q" and "capacity q * growth_rate q < 2 ^ 50"
  shows "(if capacity q * growth_rate q div 100 - capacity q < 4
          then capacity q' = capacity q + 4
          else capacity q' = capacity q * growth_rate q div 100 \<or>
               capacity q' = capacity q * growth_rate q div 100 - 1) \<and>
         capacity q + 4 \<le> capacity q' \<and>
         (\<exists>t. scale_capacity (capacity q) (growth_rate q) = Inr t \<and>
            capacity q' = (if t - capacity q < 4 then capacity q + 4 else t)) \<and>
         (if capacity q = 4 \<and> growth_rate q = 101 then capacity q' = 8 else True)"
proof -
  have four: "scale_capacity 4 101 = Inr 4" by code_simp
  from qua_grow_capacity_eq [OF assms(1)]
  obtain t where t: "scale_capacity (capacity q) (growth_rate q) = Inr t"
    and c: "capacity q' = (if t - capacity q < 4 then capacity q + 4 else t)"
    by blast
  from scale_capacity_bounds [OF assms(2-4)]
  have "capacity q * growth_rate q div 100 - 1 \<le> t \<and> t \<le> capacity q * growth_rate q div 100"
    using t by auto
  then show ?thesis using t c four by auto
qed

theorem qua_grow_capacity_witness:
  "qua_grow (AllocOk (\<lambda>i. NULL))
      \<lparr>buffer = [13, 14, 11, 12], front = 2, rear = 2, size_q = 4, capacity = 4,
        growth_rate = 101, locked = False, version_id = 4\<rparr> =
     Inr (True, \<lparr>buffer = [13, 14, 11, 12, 13, 14, NULL, NULL], front = 2, rear = 6,
        size_q = 4, capacity = 8, growth_rate = 101, locked = False, version_id = 4\<rparr>) \<and>
   (0 :: int) < 4 \<and> (0 :: int) < 101 \<and> (4 :: int) * 101 < 2 ^ 50 \<and>
   (4 :: int) * 101 div 100 - 4 < 4 \<and> (8 :: int) = 4 + 4"
proof -
  let ?q = "\<lparr>buffer = [13, 14, 11, 12], front = 2, rear = 2, size_q = 4, capacity = 4,
        growth_rate = 101, locked = False, version_id = 4\<rparr>"
  let ?r = "\<lparr>buffer = [13, 14, 11, 12, 13, 14, NULL, NULL], front = 2, rear = 6, size_q = 4,
        capacity = 8, growth_rate = 101, locked = False, version_id = 4\<rparr>"
  have h: "qua_grow (AllocOk (\<lambda>i. NULL)) ?q = Inr (True, ?r)" by code_simp
  have h2: "0 < capacity ?q" "0 < growth_rate ?q" "capacity ?q * growth_rate ?q < 2 ^ 50"
    by simp_all
  from qua_grow_capacity [OF h h2] show ?thesis using h by simp
qed

text \<open>
  C6. On the full queue of capacity 32 and growth rate \<open>100 * 2 ^ 56\<close>, the new capacity
  is \<open>2 ^ 61\<close> and its size in bytes wraps around to zero. \<^verbatim>\<open>realloc\<close>, asked for zero
  bytes, returns the null pointer and, with glibc, has released the buffer: \<^verbatim>\<open>qua_grow\<close>
  rolls the capacity back and returns false, and \<^verbatim>\<open>queue->buffer\<close> points to the released
  block. The queue is not the queue before the call.
\<close>

theorem qua_grow_realloc_counterexample:
  "qua_inv \<lparr>buffer = [1..<33], front = 0, rear = 0, size_q = 32, capacity = 32,
            growth_rate = 7205759403792793600, locked = False, version_id = 32\<rparr> \<and>
   qua_full \<lparr>buffer = [1..<33], front = 0, rear = 0, size_q = 32, capacity = 32,
            growth_rate = 7205759403792793600, locked = False, version_id = 32\<rparr> \<and>
   grown_capacity \<lparr>buffer = [1..<33], front = 0, rear = 0, size_q = 32, capacity = 32,
            growth_rate = 7205759403792793600, locked = False, version_id = 32\<rparr> =
     Inr 2305843009213693952 \<and>
   byte_count 2305843009213693952 = 0 \<and>
   qua_grow AllocFails
      \<lparr>buffer = [1..<33], front = 0, rear = 0, size_q = 32, capacity = 32,
        growth_rate = 7205759403792793600, locked = False, version_id = 32\<rparr> =
     Inl ZeroSizeRequest"
  by code_simp

text \<open>
  C6, amended. For every queue whose new capacity \<open>n\<close> is computed within
  \<^verbatim>\<open>integer_t\<close> and has a size in bytes, \<open>8 * n\<close> modulo \<open>2 ^ 64\<close>, other than zero:
  when the reallocation inside \<^verbatim>\<open>qua_grow\<close> fails, \<^verbatim>\<open>qua_grow\<close> reports failure and the
  queue is exactly the queue before the call: the capacity is rolled back and no other
  field was written. This holds whether the queue is full and unlocked or not.
\<close>

theorem qua_grow_realloc_failure:
  assumes "grown_capacity q = Inr n" and "byte_count n \<noteq> 0"
  shows "qua_grow AllocFails q = Inr (False, q)"
  using assms by (simp add: qua_grow_def realloc_bytes_def Let_def)

theorem qua_grow_realloc_failure_witness:
  "grown_capacity
      \<lparr>buffer = [13, 14, 11, 12], front = 2, rear = 2, size_q = 4, capacity = 4,
        growth_rate = 101, locked = False, version_id = 4\<rparr> = Inr 8 \<and>
   byte_count 8 = 64 \<and>
   qua_grow AllocFails
      \<lparr>buffer = [13, 14, 11, 12], front = 2, rear = 2, size_q = 4, capacity = 4,
        growth_rate = 101, locked = False, version_id = 4\<rparr> =
     Inr (False, \<lparr>buffer = [13, 14, 11, 12], front = 2, rear = 2, size_q = 4, capacity = 4,
        growth_rate = 101, locked = False, version_id = 4\<rparr>)"
proof -
  let ?q = "\<lparr>buffer = [13, 14, 11, 12], front = 2, rear = 2, size_q = 4, capacity = 4,
        growth_rate = 101, locked = False, version_id = 4\<rparr>"
  have h1: "grown_capacity ?q = Inr 8" by code_simp
  have b: "byte_count 8 = 64" by code_simp
  then have h2: "byte_count 8 \<noteq> 0" by simp
  from qua_grow_realloc_failure [OF h1 h2] show ?thesis using h1 b by simp
qed

text \<open>
  C7. On a full queue whose capacity is locked, \<^verbatim>\<open>qua_enqueue\<close> returns false and the
  queue is exactly the queue before the call: size, capacity, front, rear and the buffer
  are unchanged and the element is not stored. \<^verbatim>\<open>qua_enqueue\<close> never calls
  \<^verbatim>\<open>interface->free\<close>.
\<close>

theorem qua_enqueue_full_locked:
  assumes "qua_full q" and "locked q"
  shows "qua_enqueue ra q element = Inr (False, q)"
  using assms by (simp add: qua_enqueue_def qua_grow_def)

theorem qua_enqueue_full_locked_witness:
  "qua_full \<lparr>buffer = [13, 14, 11, 12], front = 2, rear = 2, size_q = 4, capacity = 4,
        growth_rate = 200, locked = True, version_id = 4\<rparr> \<and>
   locked \<lparr>buffer = [13, 14, 11, 12], front = 2, rear = 2, size_q = 4, capacity = 4,
        growth_rate = 200, locked = True, version_id = 4\<rparr> \<and>
   qua_enqueue (AllocOk (\<lambda>i. NULL))
      \<lparr>buffer = [13, 14, 11, 12], front = 2, rear = 2, size_q = 4, capacity = 4,
        growth_rate = 200, locked = True, version_id = 4\<rparr> 15 =
     Inr (False, \<lparr>buffer = [13, 14, 11, 12], front = 2, rear = 2, size_q = 4, capacity = 4,
        growth_rate = 200, locked = True, version_id = 4\<rparr>)"
proof -
  let ?q = "\<lparr>buffer = [13, 14, 11, 12], front = 2, rear = 2, size_q = 4, capacity = 4,
        growth_rate = 200, locked = True, version_id = 4\<rparr>"
  have h1: "qua_full ?q" by code_simp
  have h2: "locked ?q" by simp
  from qua_enqueue_full_locked [OF h1 h2, of "AllocOk (\<lambda>i. NULL)" 15] show ?thesis
    using h1 h2 by simp
qed

text \<open>
  C8. \<^verbatim>\<open>qua_set_growth\<close> and \<^verbatim>\<open>qua_erase\<close> do not touch the version counter: a
  successful \<^verbatim>\<open>qua_set_growth\<close> on a new queue leaves it at 0, and so does \<^verbatim>\<open>qua_erase\<close>.
\<close>

theorem qua_version_counterexample:
  "fst (qua_set_growth (the (qua_new True True)) 150) \<and>
   version_id (snd (qua_set_growth (the (qua_new True True)) 150)) =
     version_id (the (qua_new True True)) \<and>
   fst (qua_erase (the (qua_new True True))) \<and>
   version_id (fst (snd (qua_erase (the (qua_new True True))))) =
     version_id (the (qua_new True True))"
  by code_simp

text \<open>
  C8, amended. Each successful \<^verbatim>\<open>qua_enqueue\<close> and each successful \<^verbatim>\<open>qua_dequeue\<close>
  increases \<open>version_id\<close> by one, and a failed one leaves it unchanged;
  \<^verbatim>\<open>qua_set_growth\<close> and \<^verbatim>\<open>qua_erase\<close> leave it unchanged. So \<open>version_id\<close> never
  decreases over a sequence of these operations. (A \<^verbatim>\<open>qua_enqueue\<close> returns the flag
  \<open>ok\<close> and the queue \<open>q1\<close> unless its growth ends in a fault.)
\<close>

theorem qua_version_steps:
  "(qua_enqueue ra q x = Inr (ok, q1) \<longrightarrow>
      version_id q1 = (if ok then version_id q + 1 else version_id q)) \<and>
   version_id (snd (snd (qua_dequeue q))) =
     (if fst (qua_dequeue q) then version_id q + 1 else version_id q) \<and>
   version_id (snd (qua_set_growth q rate)) = version_id q \<and>
   version_id (fst (snd (qua_erase q))) = version_id q"
  using qua_enqueue_version [of ra q x ok q1] qua_dequeue_version [of q] qua_erase_version [of q]
  by (simp add: qua_set_growth_def)

theorem qua_version_steps_witness:
  "qua_enqueue AllocFails
      \<lparr>buffer = [NULL, NULL], front = 0, rear = 0, size_q = 0, capacity = 2,
        growth_rate = 200, locked = False, version_id = 0\<rparr> 11 =
     Inr (True, \<lparr>buffer = [11, NULL], front = 0, rear = 1, size_q = 1, capacity = 2,
        growth_rate = 200, locked = False, version_id = 1\<rparr>) \<and>
   version_id (snd (snd (qua_dequeue
      \<lparr>buffer = [20, 10], front = 1, rear = 1, size_q = 2, capacity = 2,
        growth_rate = 200, locked = False, version_id = 4\<rparr>))) = 5 \<and>
   version_id (snd (qua_set_growth
      \<lparr>buffer = [20, 10], front = 1, rear = 1, size_q = 2, capacity = 2,
        growth_rate = 200, locked = False, version_id = 4\<rparr> 150)) = 4 \<and>
   version_id (fst (snd (qua_erase
      \<lparr>buffer = [20, 10], front = 1, rear = 1, size_q = 2, capacity = 2,
        growth_rate = 200, locked = False, version_id = 4\<rparr>))) = 4"
proof -
  let ?q = "\<lparr>buffer = [20, 10], front = 1, rear = 1, size_q = 2, capacity = 2,
        growth_rate = 200, locked = False, version_id = 4\<rparr>"
  let ?n = "\<lparr>buffer = [NULL, NULL], front = 0, rear = 0, size_q = 0, capacity = 2,
        growth_rate = 200, locked = False, version_id = 0\<rparr>"
  let ?n1 = "\<lparr>buffer = [11, NULL], front = 0, rear = 1, size_q = 1, capacity = 2,
        growth_rate = 200, locked = False, version_id = 1\<rparr>"
  have e: "qua_enqueue AllocFails ?n 11 = Inr (True, ?n1)" by code_simp
  have d: "fst (qua_dequeue ?q)" by code_simp
  from qua_version_steps [of AllocFails ?n 11 True ?n1 150]
    qua_version_steps [of AllocFails ?q 11 True ?n1 150]
  show ?thesis using e d by simp
qed

text \<open>
  C9. On every queue in a state that the functions of the file produce, \<^verbatim>\<open>qua_erase\<close>
  returns true, hands to \<^verbatim>\<open>interface->free\<close> the \<open>size\<close> elements of the logical
  sequence, front to rear, and sets their slots to the null pointer; no field other
  than the buffer changes (size, front, rear, capacity, growth rate, lock and version
  are those before the call). So the queue reports the size it had, it is empty only if
  it was, and the next \<open>size\<close> calls of \<^verbatim>\<open>qua_dequeue\<close> succeed and return null pointers.
\<close>

theorem qua_erase_frame:
  assumes "qua_inv q"
  shows "\<exists>buf. qua_erase q = (True, q\<lparr>buffer := buf\<rparr>, logical_seq q) \<and>
           logical_seq (q\<lparr>buffer := buf\<rparr>) = replicate (nat (size_q q)) NULL \<and>
           qua_size (q\<lparr>buffer := buf\<rparr>) = qua_size q \<and>
           qua_empty (q\<lparr>buffer := buf\<rparr>) = qua_empty q \<and>
           dequeue_n (nat (size_q q)) (q\<lparr>buffer := buf\<rparr>) =
             replicate (nat (size_q q)) (True, NULL)"
proof -
  from qua_erase_spec [OF assms]
  obtain buf where e: "qua_erase q = (True, q\<lparr>buffer := buf\<rparr>, logical_seq q)"
    and len: "length buf = length (buffer q)"
    and s: "logical_seq (q\<lparr>buffer := buf\<rparr>) = replicate (nat (size_q q)) NULL"
    by metis
  have i: "qua_inv (q\<lparr>buffer := buf\<rparr>)" using assms len by (rule qua_inv_buffer)
  have "dequeue_n (nat (size_q q)) (q\<lparr>buffer := buf\<rparr>) =
        map (Pair True) (take (nat (size_q q)) (logical_seq (q\<lparr>buffer := buf\<rparr>)))"
    using i by (intro dequeue_n_logical_seq) simp_all
  then have "dequeue_n (nat (size_q q)) (q\<lparr>buffer := buf\<rparr>) =
      replicate (nat (size_q q)) (True, NULL)"
    unfolding s by simp
  then show ?thesis using e s by (auto simp: qua_size_def qua_empty_def)
qed

theorem qua_erase_frame_witness:
  "qua_inv \<lparr>buffer = [20, 10], front = 1, rear = 1, size_q = 2, capacity = 2,
            growth_rate = 200, locked = False, version_id = 4\<rparr> \<and>
   (\<exists>buf. qua_erase \<lparr>buffer = [20, 10], front = 1, rear = 1, size_q = 2, capacity = 2,
            growth_rate = 200, locked = False, version_id = 4\<rparr> =
           (True, \<lparr>buffer = buf, front = 1, rear = 1, size_q = 2, capacity = 2,
            growth_rate = 200, locked = False, version_id = 4\<rparr>, [10, 20]) \<and>
          logical_seq \<lparr>buffer = buf, front = 1, rear = 1, size_q = 2, capacity = 2,
            growth_rate = 200, locked = False, version_id = 4\<rparr> = [NULL, NULL] \<and>
          dequeue_n 2 \<lparr>buffer = buf, front = 1, rear = 1, size_q = 2, capacity = 2,
            growth_rate = 200, locked = False, version_id = 4\<rparr> =
            [(True, NULL), (True, NULL)])"
proof -
  let ?q = "\<lparr>buffer = [20, 10], front = 1, rear = 1, size_q = 2, capacity = 2,
             growth_rate = 200, locked = False, version_id = 4\<rparr>"
  have h: "qua_inv ?q" by code_simp
  have s: "logical_seq ?q = [10, 20]" by code_simp
  from qua_erase_frame [OF h]
  obtain buf where "qua_erase ?q = (True, ?q\<lparr>buffer := buf\<rparr>, logical_seq ?q)"
    and "logical_seq (?q\<lparr>buffer := buf\<rparr>) = replicate (nat (size_q ?q)) NULL"
    and "dequeue_n (nat (size_q ?q)) (?q\<lparr>buffer := buf\<rparr>) =
           replicate (nat (size_q ?q)) (True, NULL)"
    by blast
  then show ?thesis
    using h s by (intro conjI exI [of _ buf]) (simp_all add: numeral_2_eq_2)
qed

section \<open>The claim about RedBlackTree\<close>

text \<open>
  C10. For every sequence of \<^verbatim>\<open>rbt_insert\<close> and \<^verbatim>\<open>rbt_remove\<close> operations on a new
  tree, with any comparator, the tree after each operation satisfies the red-black
  invariants: the root is black or the tree is empty, no red node has a red child, and
  every path from the root to a null child has the same number of black nodes.
\<close>

theorem rbt_invariants_preserved:
  "list_all (\<lambda>t. rbt_inv (root t)) (rbt_run compare rbt_new ops)"
proof -
  have "rbt_inv (root rbt_new)" by (simp add: rbt_new_def rbt_inv_def)
  then show ?thesis by (rule rbt_run_inv)
qed

theorem rbt_invariants_preserved_witness:
  "list_all (\<lambda>t. rbt_inv (root t))
     (rbt_run (\<lambda>a b. a - b) rbt_new
        [Insert 5, Insert 3, Insert 8, Insert 1, Insert 4, Insert 4, Insert (2 :: int),
         Remove 3, Remove 5, Remove 9, Remove 8]) \<and>
   map root (rbt_run (\<lambda>a b. a - b) rbt_new
        [Insert 5, Insert 3, Insert 8, Insert 1, Insert 4, Insert 4, Insert (2 :: int),
         Remove 3, Remove 5, Remove 9, Remove 8]) =
     [Node Black Null 5 Null,
      Node Black (Node Red Null 3 Null) 5 Null,
      Node Black (Node Red Null 3 Null) 5 (Node Red Null 8 Null),
      Node Black (Node Black (Node Red Null 1 Null) 3 Null) 5 (Node Black Null 8 Null),
      Node Black (Node Black (Node Red Null 1 Null) 3 (Node Red Null 4 Null)) 5
        (Node Black Null 8 Null),
      Node Black (Node Black (Node Red Null 1 Null) 3 (Node Red Null 4 Null)) 5
        (Node Black Null 8 Null),
      Node Black (Node Red (Node Black Null 1 (Node Red Null 2 Null)) 3 (Node Black Null 4 Null))
        5 (Node Black Null 8 Null),
      Node Black (Node Red (Node Black Null 1 Null) 2 (Node Black Null 4 Null)) 5
        (Node Black Null 8 Null),
      Node Black (Node Black Null 1 Null) 2 (Node Black (Node Red Null 4 Null) 8 Null),
      Node Black (Node Black Null 1 Null) 2 (Node Black (Node Red Null 4 Null) 8 Null),
      Node Black (Node Black Null 1 Null) 2 (Node Black Null 4 Null)]"
proof -
  have "map root (rbt_run (\<lambda>a b. a - b) rbt_new
        [Insert 5, Insert 3, Insert 8, Insert 1, Insert 4, Insert 4, Insert (2 :: int),
         Remove 3, Remove 5, Remove 9, Remove 8]) =
     [Node Black Null 5 Null,
      Node Black (Node Red Null 3 Null) 5 Null,
      Node Black (Node Red Null 3 Null) 5 (Node Red Null 8 Null),
      Node Black (Node Black (Node Red Null 1 Null) 3 Null) 5 (Node Black Null 8 Null),
      Node Black (Node Black (Node Red Null 1 Null) 3 (Node Red Null 4 Null)) 5
        (Node Black Null 8 Null),
      Node Black (Node Black (Node Red Null 1 Null) 3 (Node Red Null 4 Null)) 5
        (Node Black Null 8 Null),
      Node Black (Node Red (Node Black Null 1 (Node Red Null 2 Null)) 3 (Node Black Null 4 Null))
        5 (Node Black Null 8 Null),
      Node Black (Node Red (Node Black Null 1 Null) 2 (Node Black Null 4 Null)) 5
        (Node Black Null 8 Null),
      Node Black (Node Black Null 1 Null) 2 (Node Black (Node Red Null 4 Null) 8 Null),
      Node Black (Node Black Null 1 Null) 2 (Node Black (Node Red Null 4 Null) 8 Null),
      Node Black (Node Black Null 1 Null) 2 (Node Black Null 4 Null)]"
    by code_simp
  then show ?thesis
    using rbt_invariants_preserved
      [of "\<lambda>a b. a - b"
          "[Insert 5, Insert 3, Insert 8, Insert 1, Insert 4, Insert 4, Insert (2 :: int),
            Remove 3, Remove 5, Remove 9, Remove 8]"]
    by simp
qed

end
